theory Spec2Isabelle
  imports Complex_Main "HOL-Library.Char_ord" "HOL-Library.List_Lexorder"
begin

section \<open>Python errors\<close>

text \<open>
  The exceptions the modelled functions of \<^verbatim>\<open>TransitionGraph.py\<close> and
  \<^verbatim>\<open>BrODE.py\<close> can raise. A function that may raise returns
  \<open>py_error + 'a\<close>, with \<open>Inl\<close> for the exception.
\<close>

datatype py_error =
  KeyError | IndexError | NameError | ValueError | ZeroDivisionError | AssertionError

section \<open>Encoding cell-type labels as integers\<close>

text \<open>
  \<^verbatim>\<open>encode_type\<close> fills two dictionaries in one pass over
  \<^verbatim>\<open>enumerate(cell_types_raw)\<close>: \<^verbatim>\<open>label_dic[type_] = i\<close> and
  \<^verbatim>\<open>label_dic_rev[i] = type_\<close>. Labels are kept polymorphic; where their order
  matters (\<^verbatim>\<open>np.unique\<close>) they are of a linear order, which for Python strings
  is the lexicographic order of \<open>string\<close>.
\<close>

fun encode_type_loop ::
  "(nat \<times> 'a) list \<Rightarrow> ('a \<rightharpoonup> nat) \<times> (nat \<rightharpoonup> 'a) \<Rightarrow> ('a \<rightharpoonup> nat) \<times> (nat \<rightharpoonup> 'a)" where
  "encode_type_loop [] dics = dics"
| "encode_type_loop ((i, ctype) # rest) (label_dic, label_dic_rev) =
     encode_type_loop rest (label_dic(ctype \<mapsto> i), label_dic_rev(i \<mapsto> ctype))"

definition encode_type :: "'a list \<Rightarrow> ('a \<rightharpoonup> nat) \<times> (nat \<rightharpoonup> 'a)" where
  "encode_type cell_types_raw =
     encode_type_loop (enumerate 0 cell_types_raw) (Map.empty, Map.empty)"

text \<open>
  A list comprehension \<^verbatim>\<open>[d[x] for x in xs]\<close> over a dictionary: the first
  missing key raises \<^verbatim>\<open>KeyError\<close>.
\<close>

fun lookup_each :: "('k \<rightharpoonup> 'v) \<Rightarrow> 'k list \<Rightarrow> py_error + 'v list" where
  "lookup_each d [] = Inr []"
| "lookup_each d (x # xs) =
     (case d x of
        None \<Rightarrow> Inl KeyError
      | Some v \<Rightarrow> (case lookup_each d xs of Inl e \<Rightarrow> Inl e | Inr vs \<Rightarrow> Inr (v # vs)))"

definition str2int :: "'a list \<Rightarrow> ('a \<rightharpoonup> nat) \<Rightarrow> py_error + nat list" where
  "str2int cell_labels_raw label_dic = lookup_each label_dic cell_labels_raw"

definition int2str :: "nat list \<Rightarrow> (nat \<rightharpoonup> 'a) \<Rightarrow> py_error + 'a list" where
  "int2str cell_labels label_dic_rev = lookup_each label_dic_rev cell_labels"

text \<open>
  \<^verbatim>\<open>np.unique\<close> returns the sorted distinct values of its argument.
\<close>

definition np_unique :: "'a::linorder list \<Rightarrow> 'a list" where
  "np_unique xs = remdups_adj (sort xs)"

text \<open>
  The label part of \<^verbatim>\<open>TransGraph.__init__\<close> (and of the decoder's constructor,
  which does the same): the distinct types are taken with \<^verbatim>\<open>np.unique\<close>,
  encoded with \<^verbatim>\<open>encode_type\<close>, and every cell label is translated. The graph
  partition that follows in the constructor is an external clustering pass and is not
  part of this model. The fields are the attributes of \<^verbatim>\<open>self\<close>, prefixed.
\<close>

record 'a trans_graph_labels =
  tg_label_dic :: "'a \<rightharpoonup> nat"
  tg_label_dic_rev :: "nat \<rightharpoonup> 'a"
  tg_n_type :: nat
  tg_cell_labels :: "nat list"
  tg_cell_types :: "nat list"

definition TransGraph_init :: "'a::linorder list \<Rightarrow> py_error + 'a trans_graph_labels" where
  "TransGraph_init cell_labels_raw =
     (let cell_types_raw = np_unique cell_labels_raw;
          (ld, ldr) = encode_type cell_types_raw
      in case lookup_each ld cell_labels_raw of
           Inl e \<Rightarrow> Inl e
         | Inr labels \<Rightarrow>
             (case lookup_each ld cell_types_raw of
                Inl e \<Rightarrow> Inl e
              | Inr types \<Rightarrow>
                  Inr \<lparr>tg_label_dic = ld, tg_label_dic_rev = ldr,
                       tg_n_type = length cell_types_raw,
                       tg_cell_labels = labels, tg_cell_types = types\<rparr>))"

text \<open>
  The order of first occurrence, which the specification names: the distinct values of a
  list, each at the place where it is first seen.
\<close>

fun first_seen :: "'a list \<Rightarrow> 'a list" where
  "first_seen [] = []"
| "first_seen (x # xs) = x # filter (\<lambda>y. y \<noteq> x) (first_seen xs)"

text \<open>
  \<^verbatim>\<open>decode_graph\<close> builds \<^verbatim>\<open>graph_dec\<close> and
  \<^verbatim>\<open>init_types_dec\<close>, then returns \<^verbatim>\<open>graph_enc, init_types_enc\<close>:
  two names that are bound neither in the function nor in the module, so evaluating
  the return statement raises \<^verbatim>\<open>NameError\<close>. The graph is a dictionary from a
  type to the list of its children, kept as an association list in the order of its keys.
\<close>

fun decode_graph_loop ::
  "(nat \<times> nat list) list \<Rightarrow> (nat \<rightharpoonup> 'a) \<Rightarrow> ('a \<rightharpoonup> 'a list) \<Rightarrow> py_error + ('a \<rightharpoonup> 'a list)" where
  "decode_graph_loop [] label_dic_rev graph_dec = Inr graph_dec"
| "decode_graph_loop ((ctype, children) # rest) label_dic_rev graph_dec =
     (case lookup_each label_dic_rev children of
        Inl e \<Rightarrow> Inl e
      | Inr cs \<Rightarrow>
          (case label_dic_rev ctype of
             None \<Rightarrow> Inl KeyError
           | Some t \<Rightarrow> decode_graph_loop rest label_dic_rev (graph_dec(t \<mapsto> cs))))"

definition decode_graph ::
  "(nat \<times> nat list) list \<Rightarrow> nat list \<Rightarrow> (nat \<rightharpoonup> 'a) \<Rightarrow> py_error + (('a \<rightharpoonup> 'a list) \<times> 'a list)" where
  "decode_graph graph init_types label_dic_rev =
     (case decode_graph_loop graph label_dic_rev Map.empty of
        Inl e \<Rightarrow> Inl e
      | Inr graph_dec \<Rightarrow>
          (case lookup_each label_dic_rev init_types of
             Inl e \<Rightarrow> Inl e
           | Inr init_types_dec \<Rightarrow> Inl NameError))"

subsection \<open>Properties of the encoding\<close>

lemma lookup_each_Inr_iff:
  "lookup_each d xs = Inr vs \<longleftrightarrow> map d xs = map Some vs"
proof (induction xs arbitrary: vs)
  case Nil
  then show ?case by auto
next
  case (Cons x xs)
  show ?case
  proof (cases "d x")
    case None
    then show ?thesis by auto
  next
    case (Some v)
    then show ?thesis
      using Cons.IH by (cases "lookup_each d xs") (auto simp: Cons_eq_map_conv)
  qed
qed

text \<open>
  The loop invariant of \<^verbatim>\<open>encode_type\<close>: every code handed out so far is below
  the next index, and the reverse dictionary inverts the forward one.
\<close>

definition enc_inv :: "nat \<Rightarrow> ('a \<rightharpoonup> nat) \<Rightarrow> (nat \<rightharpoonup> 'a) \<Rightarrow> bool" where
  "enc_inv n d r \<longleftrightarrow> (\<forall>t i. d t = Some i \<longrightarrow> i < n \<and> r i = Some t)"

lemma encode_type_loop_inv:
  "enc_inv n d r \<Longrightarrow> encode_type_loop (enumerate n xs) (d, r) = (d', r') \<Longrightarrow>
   enc_inv (n + length xs) d' r' \<and> dom d' = dom d \<union> set xs"
proof (induction xs arbitrary: n d r)
  case Nil
  then show ?case by simp
next
  case (Cons x xs)
  have step: "enc_inv (Suc n) (d(x \<mapsto> n)) (r(n \<mapsto> x))"
    using Cons.prems(1) unfolding enc_inv_def by (auto simp: less_Suc_eq)
  have run: "encode_type_loop (enumerate (Suc n) xs) (d(x \<mapsto> n), r(n \<mapsto> x)) = (d', r')"
    using Cons.prems(2) by simp
  from Cons.IH [OF step run] show ?case by auto
qed

lemma encode_type_rev_loop:
  "encode_type_loop (enumerate n xs) (d, r) = (d', r') \<Longrightarrow>
   r' k = (if n \<le> k \<and> k < n + length xs then Some (xs ! (k - n)) else r k)"
proof (induction xs arbitrary: n d r)
  case Nil
  then show ?case by auto
next
  case (Cons x xs)
  have run: "encode_type_loop (enumerate (Suc n) xs) (d(x \<mapsto> n), r(n \<mapsto> x)) = (d', r')"
    using Cons.prems by simp
  show ?case
    unfolding Cons.IH [OF run]
    by (auto simp: nth_Cons' Suc_diff_le)
qed

lemma encode_type_inverse:
  assumes "encode_type types = (d, r)"
  shows "d t = Some i \<Longrightarrow> r i = Some t" and "dom d = set types"
proof -
  have inv0: "enc_inv 0 (Map.empty :: 'a \<rightharpoonup> nat) Map.empty"
    by (simp add: enc_inv_def)
  from encode_type_loop_inv [OF inv0 assms [unfolded encode_type_def]]
  have inv: "enc_inv (0 + length types) d r" and dm: "dom d = dom (Map.empty :: 'a \<rightharpoonup> nat) \<union> set types"
    by blast+
  from inv show "d t = Some i \<Longrightarrow> r i = Some t" by (simp add: enc_inv_def)
  from dm show "dom d = set types" by simp
qed

lemma encode_type_rev_nth:
  assumes "encode_type types = (d, r)"
  shows "r k = (if k < length types then Some (types ! k) else None)"
  using encode_type_rev_loop [OF assms [unfolded encode_type_def], of k] by simp

lemma encode_type_code_distinct:
  assumes enc: "encode_type types = (d, r)" and dist: "distinct types" and i: "i < length types"
  shows "d (types ! i) = Some i"
proof -
  from encode_type_inverse(2) [OF enc] i obtain j where j: "d (types ! i) = Some j"
    by (metis domD nth_mem)
  from encode_type_inverse(1) [OF enc j] have "r j = Some (types ! i)" .
  with encode_type_rev_nth [OF enc, of j] have "j < length types" "types ! j = types ! i"
    by (auto split: if_splits)
  with dist i have "j = i" by (simp add: nth_eq_iff_index_eq)
  with j show ?thesis by simp
qed

text \<open>
  C5. Encoding an array of labels with the dictionary of \<^verbatim>\<open>encode_type\<close>
  (\<^verbatim>\<open>str2int\<close>) and decoding the codes with the reverse dictionary
  (\<^verbatim>\<open>int2str\<close>) raises no error and gives the label array back, whenever every
  label of the array is one of the encoded types.
\<close>

theorem encode_decode_roundtrip:
  assumes "set cell_labels_raw \<subseteq> set cell_types_raw"
  shows "\<exists>codes. str2int cell_labels_raw (fst (encode_type cell_types_raw)) = Inr codes \<and>
     int2str codes (snd (encode_type cell_types_raw)) = Inr cell_labels_raw"
proof -
  obtain d r where enc: "encode_type cell_types_raw = (d, r)"
    by (cases "encode_type cell_types_raw")
  have "\<forall>x \<in> set cell_labels_raw. \<exists>i. d x = Some i"
    using assms encode_type_inverse(2) [OF enc] by auto
  then have "\<exists>codes. map d cell_labels_raw = map Some codes"
  proof (induction cell_labels_raw)
    case Nil
    then show ?case by simp
  next
    case (Cons x xs)
    then obtain i codes where "d x = Some i" "map d xs = map Some codes" by auto
    then have "map d (x # xs) = map Some (i # codes)" by simp
    then show ?case by blast
  qed
  then obtain codes where codes: "map d cell_labels_raw = map Some codes" by blast
  have len: "length codes = length cell_labels_raw"
    using codes by (metis length_map)
  have "map r codes = map Some cell_labels_raw"
  proof (rule nth_equalityI)
    show "length (map r codes) = length (map Some cell_labels_raw)" using len by simp
  next
    fix k assume "k < length (map r codes)"
    then have k: "k < length codes" by simp
    with codes len have "d (cell_labels_raw ! k) = Some (codes ! k)"
      by (metis nth_map)
    from encode_type_inverse(1) [OF enc this] k len
    show "map r codes ! k = map Some cell_labels_raw ! k" by simp
  qed
  with codes show ?thesis
    by (auto simp: enc str2int_def int2str_def lookup_each_Inr_iff)
qed

theorem encode_decode_roundtrip_witness:
  "set [''b'', ''a'', ''b''] \<subseteq> set [''a'', ''b''] \<and>
   (\<exists>codes. str2int [''b'', ''a'', ''b''] (fst (encode_type [''a'', ''b''])) = Inr codes \<and>
      int2str codes (snd (encode_type [''a'', ''b''])) = Inr [''b'', ''a'', ''b''])"
proof -
  have h: "set [''b'', ''a'', ''b''] \<subseteq> set [''a'', ''b'']" by simp
  from encode_decode_roundtrip [OF h] h show ?thesis by blast
qed

lemma sorted_remdups_adj_distinct:
  "sorted xs \<Longrightarrow> distinct (remdups_adj (xs :: 'a::linorder list))"
proof (induction xs rule: remdups_adj.induct)
  case (3 x y xs)
  show ?case
  proof (cases "x = y")
    case True
    with 3 show ?thesis by simp
  next
    case False
    with "3.prems" have "x < y" by auto
    with "3.prems" have "x \<notin> set (y # xs)" by auto
    with False 3 show ?thesis by simp
  qed
qed simp_all

lemma np_unique_sorted_list: "np_unique xs = sorted_list_of_set (set xs)"
  unfolding np_unique_def
  by (rule sorted_distinct_set_unique) (simp_all add: sorted_remdups_adj_distinct)

lemma np_unique_props: "set (np_unique xs) = set xs" "distinct (np_unique xs)" "sorted (np_unique xs)"
  by (simp_all add: np_unique_sorted_list)

lemma lookup_each_total:
  "set xs \<subseteq> dom d \<Longrightarrow> \<exists>vs. lookup_each d xs = Inr vs"
  by (induction xs) auto

text \<open>
  C6 (as amended). The codes follow the sorted order of the distinct labels, not the order
  of first occurrence: \<^verbatim>\<open>TransGraph.__init__\<close> enumerates
  \<^verbatim>\<open>np.unique(cell_labels_raw)\<close>, so for every label array the constructor
  succeeds, the number of types is the number of distinct labels, the \<open>i\<close>-th
  label in sorted order gets code \<open>i\<close> in \<^verbatim>\<open>label_dic\<close> and is what
  \<^verbatim>\<open>label_dic_rev\<close> returns for \<open>i\<close>, and \<^verbatim>\<open>cell_labels\<close>
  holds the code of every cell's label.
\<close>

theorem label_codes_sorted_order:
  "\<exists>tg. TransGraph_init xs = Inr tg \<and>
     tg_n_type tg = length (sorted_list_of_set (set xs)) \<and>
     (\<forall>i < tg_n_type tg.
        tg_label_dic tg (sorted_list_of_set (set xs) ! i) = Some i \<and>
        tg_label_dic_rev tg i = Some (sorted_list_of_set (set xs) ! i)) \<and>
     map (tg_label_dic tg) xs = map Some (tg_cell_labels tg)"
proof -
  let ?ts = "np_unique xs"
  obtain d r where enc: "encode_type ?ts = (d, r)"
    by (cases "encode_type ?ts")
  have dm: "dom d = set xs"
    using encode_type_inverse(2) [OF enc] by (simp add: np_unique_props)
  obtain labels where labels: "lookup_each d xs = Inr labels"
    using lookup_each_total [of xs d] dm by auto
  obtain types where types: "lookup_each d ?ts = Inr types"
    using lookup_each_total [of ?ts d] dm by (auto simp: np_unique_props)
  let ?tg = "\<lparr>tg_label_dic = d, tg_label_dic_rev = r, tg_n_type = length ?ts,
     tg_cell_labels = labels, tg_cell_types = types\<rparr>"
  have init: "TransGraph_init xs = Inr ?tg"
    by (simp add: TransGraph_init_def enc labels types)
  have codes: "\<forall>i < length ?ts. d (?ts ! i) = Some i \<and> r i = Some (?ts ! i)"
    using encode_type_code_distinct [OF enc np_unique_props(2)] encode_type_rev_nth [OF enc]
    by simp
  have "map d xs = map Some labels"
    using labels by (simp add: lookup_each_Inr_iff)
  with init codes show ?thesis
    by (simp add: np_unique_sorted_list)
qed

lemma sls_ba: "sorted_list_of_set (set [''b'', ''a'']) = [''a'', ''b'']"
  by (simp add: sorted_list_of_set_sort_remdups less_eq_char_def)

theorem label_codes_sorted_order_witness:
  "\<exists>tg. TransGraph_init [''b'', ''a''] = Inr tg \<and>
     tg_label_dic tg ''a'' = Some 0 \<and> tg_label_dic tg ''b'' = Some 1 \<and>
     tg_cell_labels tg = [1, 0]"
proof -
  from label_codes_sorted_order [of "[''b'', ''a'']"]
  obtain tg where tg: "TransGraph_init [''b'', ''a''] = Inr tg"
    and n: "tg_n_type tg = length (sorted_list_of_set (set [''b'', ''a'']))"
    and c: "\<forall>i < tg_n_type tg.
        tg_label_dic tg (sorted_list_of_set (set [''b'', ''a'']) ! i) = Some i \<and>
        tg_label_dic_rev tg i = Some (sorted_list_of_set (set [''b'', ''a'']) ! i)"
    and l: "map (tg_label_dic tg) [''b'', ''a''] = map Some (tg_cell_labels tg)"
    by blast
  from n have n2: "tg_n_type tg = 2" by (simp add: sls_ba)
  from c n2 have "tg_label_dic tg ''a'' = Some 0" "tg_label_dic tg ''b'' = Some 1"
    by (auto simp: sls_ba dest: spec [of _ 0] spec [of _ 1])
  moreover from this l have "tg_cell_labels tg = [1, 0]"
    by (cases "tg_cell_labels tg") auto
  ultimately show ?thesis using tg by blast
qed

text \<open>
  C6 as stated fails: in the label array \<open>[''b'', ''a'']\<close> the first distinct label
  seen is \<open>''b''\<close>, and it receives code 1, not 0.
\<close>

theorem first_seen_code_counterexample:
  "first_seen [''b'', ''a''] ! 0 = ''b'' \<and>
   (case TransGraph_init [''b'', ''a''] of
      Inl e \<Rightarrow> False
    | Inr tg \<Rightarrow> tg_label_dic tg ''b'' = Some 1 \<and> tg_label_dic tg ''b'' \<noteq> Some 0)"
  by (simp add: TransGraph_init_def np_unique_def encode_type_def less_eq_char_def)

lemma decode_graph_loop_total:
  "\<forall>(t, cs) \<in> set graph. t \<in> dom r \<and> set cs \<subseteq> dom r \<Longrightarrow>
   \<exists>gd. decode_graph_loop graph r acc = Inr gd"
proof (induction graph arbitrary: acc)
  case Nil
  then show ?case by simp
next
  case (Cons a graph)
  obtain t cs where a: "a = (t, cs)" by (cases a)
  from Cons.prems a obtain v where v: "r t = Some v" by auto
  from Cons.prems a obtain vs where vs: "lookup_each r cs = Inr vs"
    using lookup_each_total [of cs r] by auto
  from Cons.prems have "\<forall>(t, cs) \<in> set graph. t \<in> dom r \<and> set cs \<subseteq> dom r" by simp
  from Cons.IH [OF this, of "acc(v \<mapsto> vs)"] show ?case
    unfolding a by (simp only: decode_graph_loop.simps v vs sum.case option.case)
qed

text \<open>
  C9. \<^verbatim>\<open>decode_graph\<close> never returns a value: every call ends in an exception,
  and whenever its two loops run through (every key, child and initial type is a key of
  \<^verbatim>\<open>label_dic_rev\<close>), so that the return statement is reached, the exception
  is \<^verbatim>\<open>NameError\<close>.
\<close>

theorem decode_graph_never_returns:
  "(\<exists>e. decode_graph graph init_types label_dic_rev = Inl e) \<and>
   ((\<forall>(t, cs) \<in> set graph. t \<in> dom label_dic_rev \<and> set cs \<subseteq> dom label_dic_rev) \<and>
    set init_types \<subseteq> dom label_dic_rev \<longrightarrow>
    decode_graph graph init_types label_dic_rev = Inl NameError)"
proof (intro conjI impI)
  show "\<exists>e. decode_graph graph init_types label_dic_rev = Inl e"
    by (simp add: decode_graph_def split: sum.splits)
next
  assume h: "(\<forall>(t, cs) \<in> set graph. t \<in> dom label_dic_rev \<and> set cs \<subseteq> dom label_dic_rev) \<and>
    set init_types \<subseteq> dom label_dic_rev"
  then obtain gd where "decode_graph_loop graph label_dic_rev Map.empty = Inr gd"
    using decode_graph_loop_total [of graph label_dic_rev Map.empty] by blast
  moreover from h obtain ds where "lookup_each label_dic_rev init_types = Inr ds"
    using lookup_each_total [of init_types label_dic_rev] by blast
  ultimately show "decode_graph graph init_types label_dic_rev = Inl NameError"
    by (simp add: decode_graph_def)
qed

theorem decode_graph_never_returns_witness:
  "decode_graph [(0, [1]), (1, [])] [0] [0 \<mapsto> ''A'', 1 \<mapsto> ''B''] = Inl NameError"
proof -
  have "(\<forall>(t, cs) \<in> set [(0, [1]), (1::nat, [] :: nat list)].
           t \<in> dom [0 \<mapsto> ''A'', 1 \<mapsto> ''B''] \<and> set cs \<subseteq> dom [0 \<mapsto> ''A'', 1 \<mapsto> ''B'']) \<and>
        set [0::nat] \<subseteq> dom [0 \<mapsto> ''A'', 1 \<mapsto> ''B'']"
    by simp
  with decode_graph_never_returns [of "[(0, [1]), (1, [])]" "[0]" "[0 \<mapsto> ''A'', 1 \<mapsto> ''B'']"]
  show ?thesis by blast
qed

section \<open>The arborescence solver\<close>

subsection \<open>Weights, failures and array access\<close>

text \<open>
  An entry of the log-weight matrix is a finite number or an infinity
  (\<^verbatim>\<open>np.log(0) = -inf\<close>); \<^verbatim>\<open>np.isinf\<close> holds of both infinities.
  Finite entries are real numbers: rounding and \<^verbatim>\<open>nan\<close> are not modelled.
  \<open>w_sub a w\<close> is \<^verbatim>\<open>a - w\<close> for a finite \<open>a\<close>, and \<open>w_less\<close> is
  \<^verbatim>\<open><\<close> on floats.
\<close>

datatype weight = Fin real | NegInf | PosInf

fun isinf :: "weight \<Rightarrow> bool" where
  "isinf (Fin a) = False"
| "isinf NegInf = True"
| "isinf PosInf = True"

fun w_sub :: "real \<Rightarrow> weight \<Rightarrow> weight" where
  "w_sub a (Fin b) = Fin (a - b)"
| "w_sub a NegInf = PosInf"
| "w_sub a PosInf = NegInf"

fun w_less :: "weight \<Rightarrow> weight \<Rightarrow> bool" where
  "w_less (Fin a) (Fin b) = (a < b)"
| "w_less (Fin a) NegInf = False"
| "w_less (Fin a) PosInf = True"
| "w_less NegInf NegInf = False"
| "w_less NegInf w = True"
| "w_less PosInf w = False"

text \<open>
  A call of the solver returns a value (\<open>Inr\<close>), raises an exception, or does not
  return at all: the pointer walk of \<^verbatim>\<open>get_loop\<close> has no bound of its own.
\<close>

datatype stop = Raised py_error | Diverged

definition ebind :: "'e + 'a \<Rightarrow> ('a \<Rightarrow> 'e + 'b) \<Rightarrow> 'e + 'b" where
  "ebind m f = (case m of Inl e \<Rightarrow> Inl e | Inr v \<Rightarrow> f v)"

text \<open>A \<^verbatim>\<open>for\<close> loop over a list whose body may raise.\<close>

fun for_each :: "'a list \<Rightarrow> ('a \<Rightarrow> 's \<Rightarrow> 'e + 's) \<Rightarrow> 's \<Rightarrow> 'e + 's" where
  "for_each [] body s = Inr s"
| "for_each (x # xs) body s =
     (case body x s of Inl e \<Rightarrow> Inl e | Inr s' \<Rightarrow> for_each xs body s')"

text \<open>
  Indexing an array (indices are natural numbers here, so numpy's wrap-around of negative
  indices does not arise), writing one entry of a matrix, and looking a key up in a
  dictionary.
\<close>

definition item :: "'a list \<Rightarrow> nat \<Rightarrow> stop + 'a" where
  "item xs i = (if i < length xs then Inr (xs ! i) else Inl (Raised IndexError))"

definition item2 :: "'a list list \<Rightarrow> nat \<Rightarrow> nat \<Rightarrow> stop + 'a" where
  "item2 m i j = ebind (item m i) (\<lambda>row. item row j)"

definition set_item2 :: "'a list list \<Rightarrow> nat \<Rightarrow> nat \<Rightarrow> 'a \<Rightarrow> stop + 'a list list" where
  "set_item2 m i j v =
     (if i < length m \<and> j < length (m ! i) then Inr (m[i := (m ! i)[j := v]])
      else Inl (Raised IndexError))"

definition lookup :: "('k \<rightharpoonup> 'v) \<Rightarrow> 'k \<Rightarrow> stop + 'v" where
  "lookup d k = (case d k of None \<Rightarrow> Inl (Raised KeyError) | Some v \<Rightarrow> Inr v)"

subsection \<open>Contracting a cycle: \<^verbatim>\<open>merge_nodes\<close>\<close>

text \<open>
  The new numbering: the nodes outside the loop are numbered in increasing order from 0,
  and every node of the loop gets the next free number.
\<close>

definition merge_v_map :: "nat \<Rightarrow> nat list \<Rightarrow> (nat \<rightharpoonup> nat)" where
  "merge_v_map n_nodes loop =
     (let (v_map, i_new) =
            fold (\<lambda>i (v_map, i_new).
                    if i \<notin> set loop then (v_map(i \<mapsto> i_new), i_new + 1) else (v_map, i_new))
              [0..<n_nodes] (Map.empty, 0)
      in fold (\<lambda>i v_map. v_map(i \<mapsto> i_new)) loop v_map)"

text \<open>
  The four dictionaries filled by the double loop over the loop's nodes \<open>x\<close> and the
  outside nodes \<open>y\<close>: the best edge from \<open>y\<close> into the loop (by reduced weight
  \<^verbatim>\<open>graph[x,y] - graph[x,parents[x]]\<close>) and the best edge from the loop to \<open>y\<close>.
\<close>

record loop_edges =
  v_to_loop :: "nat \<rightharpoonup> nat"
  weight_to_loop :: "nat \<rightharpoonup> weight"
  loop_to_v :: "nat \<rightharpoonup> nat"
  weight_from_loop :: "nat \<rightharpoonup> weight"

definition edge_to_loop ::
  "weight list list \<Rightarrow> nat list \<Rightarrow> nat \<Rightarrow> nat \<Rightarrow> loop_edges \<Rightarrow> stop + loop_edges" where
  "edge_to_loop graph parents x y st =
     ebind (item2 graph x y) (\<lambda>gxy.
       case gxy of
         Fin a \<Rightarrow>
           ebind (item parents x) (\<lambda>px.
           ebind (item2 graph x px) (\<lambda>gxp.
             case v_to_loop st y of
               None \<Rightarrow>
                 Inr (st\<lparr>v_to_loop := (v_to_loop st)(y \<mapsto> x),
                         weight_to_loop := (weight_to_loop st)(y \<mapsto> w_sub a gxp)\<rparr>)
             | Some x0 \<Rightarrow>
                 ebind (lookup (weight_to_loop st) y) (\<lambda>w0.
                   if w_less w0 (w_sub a gxp)
                   then Inr (st\<lparr>v_to_loop := (v_to_loop st)(y \<mapsto> x),
                                weight_to_loop := (weight_to_loop st)(y \<mapsto> w_sub a gxp)\<rparr>)
                   else Inr st)))
       | NegInf \<Rightarrow> Inr st
       | PosInf \<Rightarrow> Inr st)"

definition edge_from_loop ::
  "weight list list \<Rightarrow> nat \<Rightarrow> nat \<Rightarrow> loop_edges \<Rightarrow> stop + loop_edges" where
  "edge_from_loop graph x y st =
     ebind (item2 graph y x) (\<lambda>gyx.
       if isinf gyx then Inr st
       else
         case loop_to_v st y of
           None \<Rightarrow>
             Inr (st\<lparr>loop_to_v := (loop_to_v st)(y \<mapsto> x),
                     weight_from_loop := (weight_from_loop st)(y \<mapsto> gyx)\<rparr>)
         | Some x0 \<Rightarrow>
             ebind (lookup (weight_from_loop st) y) (\<lambda>w0.
               if w_less w0 gyx
               then Inr (st\<lparr>loop_to_v := (loop_to_v st)(y \<mapsto> x),
                            weight_from_loop := (weight_from_loop st)(y \<mapsto> gyx)\<rparr>)
               else Inr st))"

definition merge_edges ::
  "weight list list \<Rightarrow> nat list \<Rightarrow> nat list \<Rightarrow> nat list \<Rightarrow> stop + loop_edges" where
  "merge_edges graph parents loop v_outside =
     for_each loop
       (\<lambda>x. for_each v_outside
          (\<lambda>y st. ebind (edge_to_loop graph parents x y st) (edge_from_loop graph x y)))
       \<lparr>v_to_loop = Map.empty, weight_to_loop = Map.empty,
        loop_to_v = Map.empty, weight_from_loop = Map.empty\<rparr>"

text \<open>
  The contracted matrix: \<^verbatim>\<open>np.ones((k, k)) * (-np.inf)\<close> with
  \<^verbatim>\<open>k = n_nodes - len(loop) + 1\<close> (a negative \<open>k\<close> raises
  \<^verbatim>\<open>ValueError\<close>), then the edges among the outside nodes, then the edges to and from
  the contracted node \<open>vc\<close>.
\<close>

definition copy_outside ::
  "weight list list \<Rightarrow> (nat \<rightharpoonup> nat) \<Rightarrow> nat list \<Rightarrow> weight list list \<Rightarrow> stop + weight list list" where
  "copy_outside graph v_map v_outside graph_new =
     for_each v_outside
       (\<lambda>x. for_each v_outside
          (\<lambda>y gn.
             ebind (lookup v_map x) (\<lambda>vx.
             ebind (lookup v_map y) (\<lambda>vy.
             ebind (item2 graph x y) (\<lambda>gxy. set_item2 gn vx vy gxy)))))
       graph_new"

definition connect_loop ::
  "loop_edges \<Rightarrow> (nat \<rightharpoonup> nat) \<Rightarrow> nat \<Rightarrow> nat list \<Rightarrow> weight list list \<Rightarrow> stop + weight list list" where
  "connect_loop st v_map vc v_outside graph_new =
     for_each v_outside
       (\<lambda>x gn.
          ebind (if v_to_loop st x \<noteq> None
                 then ebind (lookup v_map x) (\<lambda>vx.
                      ebind (lookup (weight_to_loop st) x) (\<lambda>w. set_item2 gn vc vx w))
                 else Inr gn) (\<lambda>gn1.
          if loop_to_v st x \<noteq> None
          then ebind (lookup v_map x) (\<lambda>vx.
               ebind (lookup (weight_from_loop st) x) (\<lambda>w. set_item2 gn1 vx vc w))
          else Inr gn1))
       graph_new"

definition merge_nodes ::
  "weight list list \<Rightarrow> nat list \<Rightarrow> nat \<Rightarrow> nat list \<Rightarrow> nat list \<Rightarrow>
   stop + ((nat \<rightharpoonup> nat) \<times> (nat \<rightharpoonup> nat) \<times> (nat \<rightharpoonup> nat) \<times> weight list list)" where
  "merge_nodes graph parents n_nodes loop v_outside =
     (let v_map = merge_v_map n_nodes loop in
      ebind (merge_edges graph parents loop v_outside) (\<lambda>st.
      if n_nodes + 1 < length loop then Inl (Raised ValueError)
      else
        let k = n_nodes + 1 - length loop;
            graph_new = replicate k (replicate k NegInf)
        in
        ebind (item loop 0) (\<lambda>l0.
        ebind (lookup v_map l0) (\<lambda>vc.
        ebind (copy_outside graph v_map v_outside graph_new) (\<lambda>gn1.
        ebind (connect_loop st v_map vc v_outside gn1) (\<lambda>gn2.
        Inr (v_map, v_to_loop st, loop_to_v st, gn2)))))))"

subsection \<open>Finding a cycle: \<^verbatim>\<open>get_loop\<close> and \<^verbatim>\<open>check_loop\<close>\<close>

text \<open>
  \<^verbatim>\<open>get_loop\<close> follows \<^verbatim>\<open>trace_back\<close> from \<open>start\<close> until it meets
  \<open>start\<close> again. A missing key ends the walk (the \<^verbatim>\<open>KeyError\<close> is caught, and
  the loop found so far is kept without \<open>start\<close>); a walk that never meets \<open>start\<close>
  and never misses a key does not end, which is the value \<open>None\<close>.
\<close>

partial_function (option) get_loop_walk ::
  "(nat \<rightharpoonup> nat) \<Rightarrow> nat \<Rightarrow> nat \<Rightarrow> nat list \<Rightarrow> nat list option" where
  "get_loop_walk trace_back start ptr loop =
     (case trace_back ptr of
        None \<Rightarrow> Some loop
      | Some q \<Rightarrow>
          if q = start then Some (loop @ [start])
          else get_loop_walk trace_back start q (loop @ [q]))"

declare get_loop_walk.simps [code]

definition get_loop :: "(nat \<rightharpoonup> nat) \<Rightarrow> nat \<Rightarrow> nat \<Rightarrow> stop + (nat list \<times> nat list)" where
  "get_loop trace_back n_nodes start =
     (case get_loop_walk trace_back start start [] of
        None \<Rightarrow> Inl Diverged
      | Some loop \<Rightarrow> Inr (rev loop, filter (\<lambda>i. i \<notin> set loop) [0..<n_nodes]))"

text \<open>
  The breadth-first search of \<^verbatim>\<open>check_loop\<close> from one node. Its result is
  \<open>Some\<close> of what \<^verbatim>\<open>check_loop\<close> returns from inside the search, or \<open>None\<close>
  when the search ends (the queue is empty, or a loop of one node was met and the
  \<^verbatim>\<open>while\<close> is left by \<^verbatim>\<open>break\<close>) and the next start node is tried.
\<close>

function check_loop_bfs ::
  "(nat \<rightharpoonup> nat list) \<Rightarrow> nat \<Rightarrow> nat list \<Rightarrow> bool list \<Rightarrow> (nat \<rightharpoonup> nat) \<Rightarrow>
   stop + (nat list \<times> nat list) option" where
  "check_loop_bfs adj_list n_nodes queue checked trace_back =
     (case queue of
        [] \<Rightarrow> Inr None
      | ptr # rest \<Rightarrow>
          if \<not> ptr < length checked then Inl (Raised IndexError)
          else if checked ! ptr then
            (case get_loop trace_back n_nodes ptr of
               Inl e \<Rightarrow> Inl e
             | Inr (loop, v_outside) \<Rightarrow>
                 if length loop = 1 then Inr None else Inr (Some (loop, v_outside)))
          else
            (case adj_list ptr of
               None \<Rightarrow> Inl (Raised KeyError)
             | Some children \<Rightarrow>
                 check_loop_bfs adj_list n_nodes (rest @ children) (checked[ptr := True])
                   (fold (\<lambda>child tb. tb(child \<mapsto> ptr)) children trace_back)))"
  by pat_completeness auto

lemma unchecked_decreases:
  "i < length cs \<Longrightarrow> \<not> cs ! i \<Longrightarrow>
   length (filter Not (cs[i := True])) < length (filter Not cs)"
proof (induction cs arbitrary: i)
  case Nil
  then show ?case by simp
next
  case (Cons c cs)
  then show ?case by (cases i) auto
qed

termination check_loop_bfs
  by (relation "measure (\<lambda>(adj_list, n_nodes, queue, checked, trace_back). length (filter Not checked))")
     (auto simp: unchecked_decreases)

declare check_loop_bfs.simps [simp del]

fun check_loop_nodes ::
  "(nat \<rightharpoonup> nat list) \<Rightarrow> nat \<Rightarrow> nat list \<Rightarrow> stop + (nat list \<times> nat list)" where
  "check_loop_nodes adj_list n_nodes [] = Inr ([], [0..<n_nodes])"
| "check_loop_nodes adj_list n_nodes (node # nodes) =
     (case check_loop_bfs adj_list n_nodes [node] (replicate n_nodes False) Map.empty of
        Inl e \<Rightarrow> Inl e
      | Inr (Some found) \<Rightarrow> Inr found
      | Inr None \<Rightarrow> check_loop_nodes adj_list n_nodes nodes)"

definition check_loop :: "(nat \<rightharpoonup> nat list) \<Rightarrow> nat \<Rightarrow> stop + (nat list \<times> nat list)" where
  "check_loop adj_list n_nodes = check_loop_nodes adj_list n_nodes [0..<n_nodes]"

subsection \<open>The solver: \<^verbatim>\<open>edmond_chu_liu\<close>\<close>

text \<open>A list comprehension whose element expression may raise.\<close>

fun map_each :: "('a \<Rightarrow> 'e + 'b) \<Rightarrow> 'a list \<Rightarrow> 'e + 'b list" where
  "map_each f [] = Inr []"
| "map_each f (x # xs) =
     (case f x of
        Inl e \<Rightarrow> Inl e
      | Inr v \<Rightarrow> (case map_each f xs of Inl e \<Rightarrow> Inl e | Inr vs \<Rightarrow> Inr (v # vs)))"

text \<open>
  \<^verbatim>\<open>np.where(~(np.isinf(row)))[0]\<close>, \<^verbatim>\<open>np.max\<close> of the selected entries
  (it raises \<^verbatim>\<open>ValueError\<close> on an empty array), and
  \<^verbatim>\<open>np.where(cond)[0][0]\<close>: the first index where a condition holds, or
  \<^verbatim>\<open>IndexError\<close> when there is none.
\<close>

definition idx_noninf :: "weight list \<Rightarrow> nat list" where
  "idx_noninf row = filter (\<lambda>j. \<not> isinf (row ! j)) [0..<length row]"

fun np_max :: "weight list \<Rightarrow> stop + weight" where
  "np_max [] = Inl (Raised ValueError)"
| "np_max (w # ws) = Inr (fold (\<lambda>v m. if w_less m v then v else m) ws w)"

definition first_index :: "('a \<Rightarrow> bool) \<Rightarrow> 'a list \<Rightarrow> stop + nat" where
  "first_index P xs =
     (case filter (\<lambda>j. P (xs ! j)) [0..<length xs] of
        [] \<Rightarrow> Inl (Raised IndexError)
      | j # js \<Rightarrow> Inr j)"

text \<open>
  Step 2 for one node: the first column that holds the largest finite entry of the row,
  or, for a row without a finite entry, \<^verbatim>\<open>(i + np.random.choice(n_type)) % n_type\<close>.
  The random source is a parameter \<open>rnd\<close>: \<open>rnd lvl i\<close> is the number drawn for node
  \<open>i\<close> at recursion depth \<open>lvl\<close>, taken modulo \<open>n_type\<close>, so that every draw is in
  \<open>[0, n_type)\<close> and every sequence of draws is some \<open>rnd\<close> (a node draws at most once
  at each depth).
\<close>

definition best_parent ::
  "(nat \<Rightarrow> nat \<Rightarrow> nat) \<Rightarrow> nat \<Rightarrow> nat \<Rightarrow> weight list \<Rightarrow> nat \<Rightarrow> stop + nat" where
  "best_parent rnd lvl n_type row i =
     (let idx = idx_noninf row in
      if length idx > 0 then
        ebind (np_max (map (\<lambda>j. row ! j) idx)) (\<lambda>max_val. first_index (\<lambda>w. w = max_val) row)
      else if n_type = 0 then Inl (Raised ValueError)
      else Inr ((i + rnd lvl i mod n_type) mod n_type))"

definition best_parents ::
  "(nat \<Rightarrow> nat \<Rightarrow> nat) \<Rightarrow> nat \<Rightarrow> weight list list \<Rightarrow> stop + nat list" where
  "best_parents rnd lvl graph =
     map_each (\<lambda>i. best_parent rnd lvl (length graph) (graph ! i) i) [0..<length graph]"

text \<open>
  The adjacency lists of the chosen edges: every node but the root is appended to the
  list of its parent.
\<close>

definition adj_list_pruned :: "nat \<Rightarrow> nat \<Rightarrow> nat list \<Rightarrow> stop + (nat \<rightharpoonup> nat list)" where
  "adj_list_pruned n_type r parents =
     for_each [0..<n_type]
       (\<lambda>i adj.
          if i = r then Inr adj
          else ebind (item parents i) (\<lambda>p.
               ebind (lookup adj p) (\<lambda>cs. Inr (adj(p \<mapsto> cs @ [i])))))
       (fold (\<lambda>i adj. adj(i \<mapsto> [])) [0..<n_type] Map.empty)"

text \<open>Steps 2 and 3 together: the parents, and the loop that \<^verbatim>\<open>check_loop\<close> finds.\<close>

definition find_cycle ::
  "(nat \<Rightarrow> nat \<Rightarrow> nat) \<Rightarrow> nat \<Rightarrow> weight list list \<Rightarrow> nat \<Rightarrow> stop + (nat list \<times> nat list \<times> nat list)" where
  "find_cycle rnd lvl graph r =
     ebind (best_parents rnd lvl graph) (\<lambda>parents.
     ebind (adj_list_pruned (length graph) r parents) (\<lambda>adj.
     ebind (check_loop adj (length graph)) (\<lambda>(loop, v_outside).
     Inr (parents, loop, v_outside))))"

text \<open>The tree when no loop was found: the root points to itself, every other node to its parent.\<close>

definition zeros :: "nat \<Rightarrow> real list list" where
  "zeros n = replicate n (replicate n 0)"

definition base_mst :: "nat \<Rightarrow> nat \<Rightarrow> nat list \<Rightarrow> stop + real list list" where
  "base_mst n_type r parents =
     for_each [0..<n_type]
       (\<lambda>i mst.
          if i = r then set_item2 mst i i 1
          else ebind (item parents i) (\<lambda>p. set_item2 mst i p 1))
       (zeros n_type)"

text \<open>
  Expanding the contracted node again, in the order of the source: the edges among the
  outside nodes, the edges of the loop, the edges from the loop, the one edge into the
  loop, and the loop edge that it replaces.
\<close>

definition edges_outside ::
  "(nat \<rightharpoonup> nat) \<Rightarrow> nat list \<Rightarrow> real list list \<Rightarrow> real list list \<Rightarrow> stop + real list list" where
  "edges_outside v_map v_outside mst_merged mst =
     for_each v_outside
       (\<lambda>x. for_each v_outside
          (\<lambda>y m.
             ebind (lookup v_map x) (\<lambda>vx.
             ebind (lookup v_map y) (\<lambda>vy.
             ebind (item2 mst_merged vx vy) (\<lambda>e. set_item2 m x y e)))))
       mst"

definition edges_within :: "nat list \<Rightarrow> real list list \<Rightarrow> stop + real list list" where
  "edges_within loop mst =
     ebind (for_each [0..<length loop - 1]
              (\<lambda>i m. ebind (item loop (i + 1)) (\<lambda>a. ebind (item loop i) (\<lambda>b. set_item2 m a b 1)))
              mst) (\<lambda>m.
     ebind (item loop 0) (\<lambda>a.
     if loop = [] then Inl (Raised IndexError) else set_item2 m a (last loop) 1))"

definition edges_from_loop ::
  "(nat \<rightharpoonup> nat) \<Rightarrow> (nat \<rightharpoonup> nat) \<Rightarrow> nat \<Rightarrow> nat list \<Rightarrow> real list list \<Rightarrow> real list list \<Rightarrow>
   stop + real list list" where
  "edges_from_loop v_map ltv vc v_outside mst_merged mst =
     for_each v_outside
       (\<lambda>x m.
          ebind (lookup v_map x) (\<lambda>vx.
          ebind (item2 mst_merged vx vc) (\<lambda>e.
          if e > 0 then ebind (lookup ltv x) (\<lambda>l. set_item2 m x l e) else Inr m)))
       mst"

fun find_source :: "(nat \<rightharpoonup> nat) \<Rightarrow> nat list \<Rightarrow> nat \<Rightarrow> stop + nat" where
  "find_source v_map [] source_to_loop = Inr source_to_loop"
| "find_source v_map (x # xs) source_to_loop =
     (case lookup v_map x of
        Inl e \<Rightarrow> Inl e
      | Inr vx \<Rightarrow> if vx = source_to_loop then Inr x else find_source v_map xs source_to_loop)"

definition edge_to_loop_back ::
  "(nat \<rightharpoonup> nat) \<Rightarrow> (nat \<rightharpoonup> nat) \<Rightarrow> nat \<Rightarrow> nat list \<Rightarrow> nat list \<Rightarrow> real list list \<Rightarrow> real list list \<Rightarrow>
   stop + real list list" where
  "edge_to_loop_back v_map vtl vc loop v_outside mst_merged mst =
     ebind (item mst_merged vc) (\<lambda>row.
     ebind (first_index (\<lambda>e. e > 0) row) (\<lambda>source_merged.
     ebind (find_source v_map v_outside source_merged) (\<lambda>source_to_loop.
     ebind (lookup vtl source_to_loop) (\<lambda>target_in_loop.
     ebind (set_item2 mst target_in_loop source_to_loop 1) (\<lambda>m.
     ebind (first_index (\<lambda>v. v = target_in_loop) loop) (\<lambda>idx_in_loop.
     ebind (item loop ((idx_in_loop + length loop - 1) mod length loop)) (\<lambda>prev.
     set_item2 m target_in_loop prev 0)))))))"

definition expand_loop ::
  "nat \<Rightarrow> (nat \<rightharpoonup> nat) \<Rightarrow> (nat \<rightharpoonup> nat) \<Rightarrow> (nat \<rightharpoonup> nat) \<Rightarrow> nat \<Rightarrow> nat list \<Rightarrow> nat list \<Rightarrow>
   real list list \<Rightarrow> stop + real list list" where
  "expand_loop n_type v_map vtl ltv vc loop v_outside mst_merged =
     ebind (edges_outside v_map v_outside mst_merged (zeros n_type)) (\<lambda>m1.
     ebind (edges_within loop m1) (\<lambda>m2.
     ebind (edges_from_loop v_map ltv vc v_outside mst_merged m2) (\<lambda>m3.
     edge_to_loop_back v_map vtl vc loop v_outside mst_merged m3)))"

text \<open>
  The solver returns the tree; the model returns with it the caller's matrix as the call
  leaves it, since the first step writes into the argument (\<^verbatim>\<open>graph[r] = -np.inf\<close>).
  The matrix of the recursive call is a fresh array, so nothing else reaches the caller.
\<close>

function edmond_chu_liu ::
  "(nat \<Rightarrow> nat \<Rightarrow> nat) \<Rightarrow> nat \<Rightarrow> weight list list \<Rightarrow> nat \<Rightarrow>
   stop + (weight list list \<times> real list list)" where
  "edmond_chu_liu rnd lvl graph r =
     (if \<not> r < length graph then Inl (Raised IndexError)
      else
        case find_cycle rnd lvl (graph[r := map (\<lambda>w. NegInf) (graph ! r)]) r of
          Inl e \<Rightarrow> Inl e
        | Inr (parents, loop, v_outside) \<Rightarrow>
            if length loop > 0 then
              (case merge_nodes (graph[r := map (\<lambda>w. NegInf) (graph ! r)]) parents
                      (length graph) loop v_outside of
                 Inl e \<Rightarrow> Inl e
               | Inr (v_map, vtl, ltv, graph_merged) \<Rightarrow>
                   (case lookup v_map (loop ! 0) of
                      Inl e \<Rightarrow> Inl e
                    | Inr vc \<Rightarrow>
                        (case lookup v_map r of
                           Inl e \<Rightarrow> Inl e
                         | Inr r_merged \<Rightarrow>
                             (case edmond_chu_liu rnd (Suc lvl) graph_merged r_merged of
                                Inl e \<Rightarrow> Inl e
                              | Inr (graph_merged_after, mst_merged) \<Rightarrow>
                                  (case expand_loop (length graph) v_map vtl ltv vc loop
                                          v_outside mst_merged of
                                     Inl e \<Rightarrow> Inl e
                                   | Inr mst \<Rightarrow>
                                       Inr (graph[r := map (\<lambda>w. NegInf) (graph ! r)], mst))))))
            else
              (case base_mst (length graph) r parents of
                 Inl e \<Rightarrow> Inl e
               | Inr mst \<Rightarrow> Inr (graph[r := map (\<lambda>w. NegInf) (graph ! r)], mst)))"
  by pat_completeness auto


lemma ebind_simps [simp]:
  "ebind (Inl e) f = Inl e"
  "ebind (Inr v) f = f v"
  by (simp_all add: ebind_def)

lemma ebind_Inr_iff: "ebind m f = Inr y \<longleftrightarrow> (\<exists>v. m = Inr v \<and> f v = Inr y)"
  by (cases m) auto

lemma for_each_invariant:
  assumes "for_each xs body s = Inr s'" and "P s"
    and "\<And>x t t'. x \<in> set xs \<Longrightarrow> P t \<Longrightarrow> body x t = Inr t' \<Longrightarrow> P t'"
  shows "P s'"
  using assms
proof (induction xs arbitrary: s)
  case Nil
  then show ?case by simp
next
  case (Cons x xs)
  from Cons.prems(1) obtain t where t: "body x s = Inr t" and rest: "for_each xs body t = Inr s'"
    by (auto split: sum.splits)
  have "P t" using Cons.prems(3) [of x s t] Cons.prems(2) t by simp
  moreover have "\<And>y u u'. y \<in> set xs \<Longrightarrow> P u \<Longrightarrow> body y u = Inr u' \<Longrightarrow> P u'"
    by (rule Cons.prems(3)) simp_all
  ultimately show ?case using Cons.IH [OF rest] by blast
qed

lemma set_item2_shape:
  "set_item2 m i j v = Inr m' \<Longrightarrow> map length m' = map length m"
  by (auto simp: set_item2_def map_update nth_list_update split: if_splits
      intro!: nth_equalityI)

lemma check_loop_bfs_length:
  "check_loop_bfs adj n q c tb = Inr (Some (loop, vo)) \<Longrightarrow> length loop \<noteq> 1"
proof (induction adj n q c tb rule: check_loop_bfs.induct)
  case (1 adj n q c tb)
  show ?case
  proof (cases q)
    case Nil
    with "1.prems" show ?thesis by (simp add: check_loop_bfs.simps)
  next
    case (Cons ptr rest)
    note unf = check_loop_bfs.simps [of adj n "ptr # rest" c tb]
    show ?thesis
    proof (cases "ptr < length c \<and> \<not> c ! ptr")
      case True
      with "1.prems" Cons obtain children where ch: "adj ptr = Some children"
        by (cases "adj ptr") (auto simp: unf)
      with "1.prems" Cons True
      have "check_loop_bfs adj n (rest @ children) (c[ptr := True])
              (fold (\<lambda>child tb. tb(child \<mapsto> ptr)) children tb) = Inr (Some (loop, vo))"
        by (simp add: unf)
      with "1.IH" [OF Cons _ _ ch] True show ?thesis by simp
    next
      case False
      with "1.prems" Cons show ?thesis
        by (auto simp: unf split: if_splits sum.splits)
    qed
  qed
qed

lemma check_loop_nodes_length:
  "check_loop_nodes adj n nodes = Inr (loop, vo) \<Longrightarrow> length loop \<noteq> 1"
proof (induction nodes)
  case Nil
  then show ?case by simp
next
  case (Cons node nodes)
  then show ?case
    by (auto split: sum.splits option.splits dest: check_loop_bfs_length)
qed

lemma find_cycle_length:
  "find_cycle rnd lvl graph r = Inr (parents, loop, vo) \<Longrightarrow> length loop \<noteq> 1"
  by (auto simp: find_cycle_def ebind_Inr_iff check_loop_def dest: check_loop_nodes_length)

lemma copy_outside_shape:
  assumes "copy_outside graph v_map vo gn = Inr gn'"
  shows "map length gn' = map length gn"
proof (rule for_each_invariant [OF assms [unfolded copy_outside_def],
      where P = "\<lambda>t. map length t = map length gn"])
  show "map length gn = map length gn" by simp
next
  fix x t t'
  assume t: "map length t = map length gn"
    and run: "for_each vo (\<lambda>y gn. ebind (lookup v_map x) (\<lambda>vx. ebind (lookup v_map y) (\<lambda>vy.
          ebind (item2 graph x y) (\<lambda>gxy. set_item2 gn vx vy gxy)))) t = Inr t'"
  show "map length t' = map length gn"
  proof (rule for_each_invariant [OF run, where P = "\<lambda>t. map length t = map length gn"])
    show "map length t = map length gn" by (rule t)
  next
    fix y u u'
    assume "map length u = map length gn"
      and "ebind (lookup v_map x) (\<lambda>vx. ebind (lookup v_map y) (\<lambda>vy.
          ebind (item2 graph x y) (\<lambda>gxy. set_item2 u vx vy gxy))) = Inr u'"
    then show "map length u' = map length gn"
      by (auto simp: ebind_Inr_iff dest: set_item2_shape)
  qed
qed

lemma connect_loop_shape:
  assumes "connect_loop st v_map vc vo gn = Inr gn'"
  shows "map length gn' = map length gn"
proof (rule for_each_invariant [OF assms [unfolded connect_loop_def],
      where P = "\<lambda>t. map length t = map length gn"])
  show "map length gn = map length gn" by simp
next
  fix x t t'
  assume t: "map length t = map length gn"
    and step: "ebind (if v_to_loop st x \<noteq> None
                 then ebind (lookup v_map x) (\<lambda>vx.
                      ebind (lookup (weight_to_loop st) x) (\<lambda>w. set_item2 t vc vx w))
                 else Inr t) (\<lambda>gn1.
          if loop_to_v st x \<noteq> None
          then ebind (lookup v_map x) (\<lambda>vx.
               ebind (lookup (weight_from_loop st) x) (\<lambda>w. set_item2 gn1 vx vc w))
          else Inr gn1) = Inr t'"
  from step obtain t1 where
    t1: "(if v_to_loop st x \<noteq> None
                 then ebind (lookup v_map x) (\<lambda>vx.
                      ebind (lookup (weight_to_loop st) x) (\<lambda>w. set_item2 t vc vx w))
                 else Inr t) = Inr t1"
    and t2: "(if loop_to_v st x \<noteq> None
          then ebind (lookup v_map x) (\<lambda>vx.
               ebind (lookup (weight_from_loop st) x) (\<lambda>w. set_item2 t1 vx vc w))
          else Inr t1) = Inr t'"
    unfolding ebind_Inr_iff by blast
  from t1 have "map length t1 = map length t"
    by (auto simp: ebind_Inr_iff split: if_splits dest: set_item2_shape)
  moreover from t2 have "map length t' = map length t1"
    by (auto simp: ebind_Inr_iff split: if_splits dest: set_item2_shape)
  ultimately show "map length t' = map length gn" using t by simp
qed

lemma merge_nodes_shape:
  assumes "merge_nodes graph parents n loop vo = Inr (v_map, vtl, ltv, gm)"
  shows "map length gm = replicate (n + 1 - length loop) (n + 1 - length loop)"
    and "length loop \<le> n + 1"
proof -
  let ?k = "n + 1 - length loop"
  from assms obtain st l0 vc gn1 where
    le: "\<not> n + 1 < length loop"
    and c: "copy_outside graph (merge_v_map n loop) vo (replicate ?k (replicate ?k NegInf)) = Inr gn1"
    and d: "connect_loop st (merge_v_map n loop) vc vo gn1 = Inr gm"
    by (auto simp: merge_nodes_def Let_def ebind_Inr_iff split: if_splits)
  from le show "length loop \<le> n + 1" by simp
  from copy_outside_shape [OF c] connect_loop_shape [OF d]
  show "map length gm = replicate ?k ?k" by (simp add: map_replicate_const)
qed

lemma merge_nodes_length:
  assumes "merge_nodes graph parents n loop vo = Inr (v_map, vtl, ltv, gm)"
  shows "length gm = n + 1 - length loop"
  using merge_nodes_shape(1) [OF assms] by (metis length_map length_replicate)

termination edmond_chu_liu
proof (relation "measure (\<lambda>(rnd, lvl, graph, r). length graph)", goal_cases)
  case 1
  show ?case by simp
next
  case (2 rnd lvl graph r x2 parents y loop v_outside x2a v_map ya vtl yb ltv graph_merged)
  let ?g = "graph[r := map (\<lambda>w. NegInf) (graph ! r)]"
  from 2 have fc: "find_cycle rnd lvl ?g r = Inr (parents, loop, v_outside)"
    and mn: "merge_nodes ?g parents (length graph) loop v_outside = Inr (v_map, vtl, ltv, graph_merged)"
    and pos: "0 < length loop" and r: "r < length graph"
    by auto
  from find_cycle_length [OF fc] pos have "2 \<le> length loop" by arith
  with merge_nodes_length [OF mn] r have "length graph_merged < length graph" by arith
  then show ?case by simp
qed

declare edmond_chu_liu.simps [simp del]

subsection \<open>The solver writes into its argument\<close>

text \<open>
  C10. When \<^verbatim>\<open>edmond_chu_liu\<close> returns, the caller's matrix has the same number of
  rows as before, row \<open>r\<close> holds \<^verbatim>\<open>-inf\<close> in every entry, and every other row is as
  it was.
\<close>

theorem edmond_chu_liu_mutates_input:
  assumes "edmond_chu_liu rnd lvl graph r = Inr (graph_after, mst)"
  shows "r < length graph \<and> length graph_after = length graph \<and>
     graph_after ! r = replicate (length (graph ! r)) NegInf \<and>
     (\<forall>i < length graph. i \<noteq> r \<longrightarrow> graph_after ! i = graph ! i)"
proof -
  from assms have r: "r < length graph"
    and after: "graph_after = graph[r := map (\<lambda>w. NegInf) (graph ! r)]"
    by (subst (asm) edmond_chu_liu.simps, auto split: if_splits sum.splits prod.splits)+
  have "map (\<lambda>w. NegInf) (graph ! r) = replicate (length (graph ! r)) NegInf"
    by (simp add: map_replicate_const)
  with r after show ?thesis by simp
qed

theorem edmond_chu_liu_mutates_input_witness:
  "\<exists>graph_after mst.
     edmond_chu_liu (\<lambda>l i. 0) 0 [[Fin (-1), Fin (-2)], [Fin 0, NegInf]] 0 = Inr (graph_after, mst) \<and>
     graph_after ! 0 = [NegInf, NegInf] \<and> graph_after ! 1 = [Fin 0, NegInf]"
proof -
  have run: "edmond_chu_liu (\<lambda>l i. 0) 0 [[Fin (-1), Fin (-2)], [Fin 0, NegInf]] 0 =
      Inr ([[NegInf, NegInf], [Fin 0, NegInf]], [[1, 0], [1, 0]])"
    by code_simp
  from edmond_chu_liu_mutates_input [OF run] run show ?thesis by simp
qed

subsection \<open>The fallback parent can make the solver raise\<close>

text \<open>
  C8, at a failing input. Three nodes, root 0, one edge (from node 2 to node 1): node 2
  has no incoming edge. If its draw is 2, its fallback parent is \<open>(2 + 2) mod 3 = 1\<close>,
  the chosen edges form the loop of nodes 1 and 2, no edge enters that loop, and after the
  recursive call \<^verbatim>\<open>v_to_loop[source_to_loop]\<close> raises \<^verbatim>\<open>KeyError\<close>. With the
  draw 1 the fallback parent is the root and the solver returns.
\<close>

theorem fallback_parent_raises:
  "edmond_chu_liu (\<lambda>l i. 2) 0
     [[NegInf, NegInf, NegInf], [NegInf, NegInf, Fin 0], [NegInf, NegInf, NegInf]] 0 =
   Inl (Raised KeyError) \<and>
   edmond_chu_liu (\<lambda>l i. 1) 0
     [[NegInf, NegInf, NegInf], [NegInf, NegInf, Fin 0], [NegInf, NegInf, NegInf]] 0 =
   Inr ([[NegInf, NegInf, NegInf], [NegInf, NegInf, Fin 0], [NegInf, NegInf, NegInf]],
        [[1, 0, 0], [0, 0, 1], [1, 0, 0]])"
  by code_simp

subsection \<open>Determinism away from the fallback\<close>

text \<open>
  The runs in which no node but the root ever takes the random fallback: at this level
  every row but the root's has a finite entry, and the same holds for the contracted
  matrix of the recursive call, if there is one. (The root's own row is cleared in step 1,
  so the root draws a number at every level; that parent is never used.)
\<close>

function fallback_free :: "(nat \<Rightarrow> nat \<Rightarrow> nat) \<Rightarrow> nat \<Rightarrow> weight list list \<Rightarrow> nat \<Rightarrow> bool" where
  "fallback_free rnd lvl graph r =
     (if \<not> r < length graph then False
      else if \<not> list_all (\<lambda>i. i = r \<or> idx_noninf (graph ! i) \<noteq> []) [0..<length graph] then False
      else
        case find_cycle rnd lvl (graph[r := map (\<lambda>w. NegInf) (graph ! r)]) r of
          Inl e \<Rightarrow> True
        | Inr (parents, loop, v_outside) \<Rightarrow>
            if length loop > 0 then
              (case merge_nodes (graph[r := map (\<lambda>w. NegInf) (graph ! r)]) parents
                      (length graph) loop v_outside of
                 Inl e \<Rightarrow> True
               | Inr (v_map, vtl, ltv, graph_merged) \<Rightarrow>
                   (case lookup v_map (loop ! 0) of
                      Inl e \<Rightarrow> True
                    | Inr vc \<Rightarrow>
                        (case lookup v_map r of
                           Inl e \<Rightarrow> True
                         | Inr r_merged \<Rightarrow> fallback_free rnd (Suc lvl) graph_merged r_merged)))
            else True)"
  by pat_completeness auto
termination
proof (relation "measure (\<lambda>(rnd, lvl, graph, r). length graph)", goal_cases)
  case 1
  show ?case by simp
next
  case (2 rnd lvl graph r x2 parents y loop v_outside x2a v_map ya vtl yb ltv graph_merged)
  let ?g = "graph[r := map (\<lambda>w. NegInf) (graph ! r)]"
  from 2 have fc: "find_cycle rnd lvl ?g r = Inr (parents, loop, v_outside)"
    and mn: "merge_nodes ?g parents (length graph) loop v_outside = Inr (v_map, vtl, ltv, graph_merged)"
    and pos: "0 < length loop" and r: "r < length graph"
    by auto
  from find_cycle_length [OF fc] pos have "2 \<le> length loop" by arith
  with merge_nodes_length [OF mn] r have "length graph_merged < length graph" by arith
  then show ?case by simp
qed

declare fallback_free.simps [simp del]

lemma for_each_cong:
  "(\<And>x s. x \<in> set xs \<Longrightarrow> f x s = g x s) \<Longrightarrow> for_each xs f s = for_each xs g s"
  by (induction xs arbitrary: s) (auto split: sum.splits)

lemma edmond_chu_liu_induct [case_names step]:
  assumes "\<And>rnd lvl graph r.
     (\<And>parents loop v_outside v_map vtl ltv graph_merged vc r_merged.
         r < length graph \<Longrightarrow>
         find_cycle rnd lvl (graph[r := map (\<lambda>w. NegInf) (graph ! r)]) r =
           Inr (parents, loop, v_outside) \<Longrightarrow>
         0 < length loop \<Longrightarrow>
         merge_nodes (graph[r := map (\<lambda>w. NegInf) (graph ! r)]) parents (length graph) loop
           v_outside = Inr (v_map, vtl, ltv, graph_merged) \<Longrightarrow>
         lookup v_map (loop ! 0) = Inr vc \<Longrightarrow>
         lookup v_map r = Inr r_merged \<Longrightarrow>
         P rnd (Suc lvl) graph_merged r_merged) \<Longrightarrow>
     P rnd lvl graph r"
  shows "P rnd lvl graph r"
proof (induction rnd lvl graph r rule: edmond_chu_liu.induct)
  case (1 rnd lvl graph r)
  show ?case
  proof (rule assms)
    fix parents loop v_outside v_map vtl ltv graph_merged vc r_merged
    assume "r < length graph"
      and "find_cycle rnd lvl (graph[r := map (\<lambda>w. NegInf) (graph ! r)]) r =
           Inr (parents, loop, v_outside)"
      and "0 < length loop"
      and "merge_nodes (graph[r := map (\<lambda>w. NegInf) (graph ! r)]) parents (length graph) loop
           v_outside = Inr (v_map, vtl, ltv, graph_merged)"
      and "lookup v_map (loop ! 0) = Inr vc"
      and "lookup v_map r = Inr r_merged"
    then show "P rnd (Suc lvl) graph_merged r_merged"
      by (intro "1.IH" [of "(parents, loop, v_outside)" parents "(loop, v_outside)" loop v_outside
            "(v_map, vtl, ltv, graph_merged)" v_map "(vtl, ltv, graph_merged)" vtl
            "(ltv, graph_merged)" ltv graph_merged vc r_merged]) simp_all
  qed
qed

lemma edmond_chu_liu_rec:
  assumes "r < length graph"
    and "find_cycle rnd lvl (graph[r := map (\<lambda>w. NegInf) (graph ! r)]) r =
           Inr (parents, loop, v_outside)"
    and "0 < length loop"
    and "merge_nodes (graph[r := map (\<lambda>w. NegInf) (graph ! r)]) parents (length graph) loop
           v_outside = Inr (v_map, vtl, ltv, graph_merged)"
    and "lookup v_map (loop ! 0) = Inr vc"
    and "lookup v_map r = Inr r_merged"
  shows "edmond_chu_liu rnd lvl graph r =
     (case edmond_chu_liu rnd (Suc lvl) graph_merged r_merged of
        Inl e \<Rightarrow> Inl e
      | Inr (graph_merged_after, mst_merged) \<Rightarrow>
          (case expand_loop (length graph) v_map vtl ltv vc loop v_outside mst_merged of
             Inl e \<Rightarrow> Inl e
           | Inr mst \<Rightarrow> Inr (graph[r := map (\<lambda>w. NegInf) (graph ! r)], mst)))"
  using assms by (subst edmond_chu_liu.simps) simp

lemma edmond_chu_liu_base:
  assumes "r < length graph"
    and "find_cycle rnd lvl (graph[r := map (\<lambda>w. NegInf) (graph ! r)]) r =
           Inr (parents, [], v_outside)"
  shows "edmond_chu_liu rnd lvl graph r =
     (case base_mst (length graph) r parents of
        Inl e \<Rightarrow> Inl e
      | Inr mst \<Rightarrow> Inr (graph[r := map (\<lambda>w. NegInf) (graph ! r)], mst))"
  using assms by (subst edmond_chu_liu.simps) simp

lemma map_each_change_one:
  assumes "\<forall>x \<in> set xs. x \<noteq> r \<longrightarrow> g x = f x" and "f r = Inr a" and "g r = Inr b"
  shows "map_each g xs =
     (case map_each f xs of
        Inl e \<Rightarrow> Inl e
      | Inr vs \<Rightarrow> Inr (map2 (\<lambda>x v. if x = r then b else v) xs vs))"
  using assms(1)
proof (induction xs)
  case Nil
  then show ?case by simp
next
  case (Cons x xs)
  then have IH: "map_each g xs =
     (case map_each f xs of
        Inl e \<Rightarrow> Inl e
      | Inr vs \<Rightarrow> Inr (map2 (\<lambda>x v. if x = r then b else v) xs vs))"
    by simp
  show ?case
  proof (cases "x = r")
    case True
    then show ?thesis using assms(2,3) IH by (simp split: sum.splits)
  next
    case False
    with Cons.prems have "g x = f x" by simp
    then show ?thesis using False IH by (simp split: sum.splits)
  qed
qed

lemma map_each_length: "map_each f xs = Inr vs \<Longrightarrow> length vs = length xs"
  by (induction xs arbitrary: vs) (auto split: sum.splits)

lemma map2_upt_update:
  "length vs = n \<Longrightarrow> r < n \<Longrightarrow> map2 (\<lambda>x v. if x = r then b else v) [0..<n] vs = vs[r := b]"
  by (rule nth_equalityI) (auto simp: nth_list_update)

lemma idx_noninf_cleared [simp]: "idx_noninf (map (\<lambda>w. NegInf) row) = []"
  by (simp add: idx_noninf_def filter_empty_conv)

lemma best_parents_change_root:
  assumes r: "r < length graph"
    and root: "idx_noninf (graph ! r) = []"
    and others: "\<forall>i < length graph. i \<noteq> r \<longrightarrow> idx_noninf (graph ! i) \<noteq> []"
  shows "best_parents rnd2 lvl graph =
     (case best_parents rnd1 lvl graph of
        Inl e \<Rightarrow> Inl e
      | Inr p \<Rightarrow> Inr (p[r := (r + rnd2 lvl r mod length graph) mod length graph]))"
proof -
  let ?n = "length graph"
  let ?f = "\<lambda>rnd i. best_parent rnd lvl ?n (graph ! i) i"
  have eq: "\<forall>i \<in> set [0..<?n]. i \<noteq> r \<longrightarrow> ?f rnd2 i = ?f rnd1 i"
    using others by (simp add: best_parent_def)
  have f1: "?f rnd1 r = Inr ((r + rnd1 lvl r mod ?n) mod ?n)"
    and f2: "?f rnd2 r = Inr ((r + rnd2 lvl r mod ?n) mod ?n)"
    using r root by (auto simp: best_parent_def)
  show ?thesis
    unfolding best_parents_def map_each_change_one [of "[0..<?n]" r "?f rnd2" "?f rnd1", OF eq f1 f2]
    using r by (auto split: sum.splits dest!: map_each_length simp: map2_upt_update)
qed

lemma best_parents_length: "best_parents rnd lvl graph = Inr p \<Longrightarrow> length p = length graph"
  by (auto simp: best_parents_def dest: map_each_length)

lemma adj_list_pruned_change_root:
  "adj_list_pruned n r (p[r := b]) = adj_list_pruned n r p"
  unfolding adj_list_pruned_def
  by (rule for_each_cong) (simp add: item_def)

lemma base_mst_change_root:
  "base_mst n r (p[r := b]) = base_mst n r p"
  unfolding base_mst_def
  by (rule for_each_cong) (simp add: item_def)

lemma edge_to_loop_change_root:
  assumes "r < length graph" and "\<forall>w \<in> set (graph ! r). w = NegInf"
  shows "edge_to_loop graph (p[r := b]) x y st = edge_to_loop graph p x y st"
proof (cases "x = r")
  case True
  have "item2 graph r y = Inr NegInf \<or> (\<exists>e. item2 graph r y = Inl e)"
    using assms by (auto simp: item2_def item_def)
  then show ?thesis using True by (auto simp: edge_to_loop_def)
next
  case False
  then have eq: "item (p[r := b]) x = item p x" by (simp add: item_def)
  show ?thesis
  proof (cases "item2 graph x y")
    case (Inl e)
    then show ?thesis by (simp add: edge_to_loop_def)
  next
    case (Inr w)
    then show ?thesis by (cases w) (simp_all add: edge_to_loop_def eq)
  qed
qed

lemma merge_nodes_change_root:
  assumes "r < length graph" and "\<forall>w \<in> set (graph ! r). w = NegInf"
  shows "merge_nodes graph (p[r := b]) n loop vo = merge_nodes graph p n loop vo"
proof -
  have "edge_to_loop graph (p[r := b]) = edge_to_loop graph p"
    by (intro ext) (rule edge_to_loop_change_root [OF assms])
  then show ?thesis by (simp add: merge_nodes_def merge_edges_def)
qed

lemma find_cycle_change_root:
  assumes r: "r < length graph"
    and root: "idx_noninf (graph ! r) = []"
    and others: "\<forall>i < length graph. i \<noteq> r \<longrightarrow> idx_noninf (graph ! i) \<noteq> []"
  shows "find_cycle rnd2 lvl graph r =
     (case find_cycle rnd1 lvl graph r of
        Inl e \<Rightarrow> Inl e
      | Inr (p, loop, vo) \<Rightarrow>
          Inr (p[r := (r + rnd2 lvl r mod length graph) mod length graph], loop, vo))"
  unfolding find_cycle_def best_parents_change_root [OF r root others, of rnd2 lvl rnd1]
  by (auto simp: adj_list_pruned_change_root ebind_def split: sum.splits)

text \<open>
  C4. On a run where no node but the root takes the fallback, the result of
  \<^verbatim>\<open>edmond_chu_liu\<close> (the tree, the matrix left to the caller, or the exception)
  is the same for every other random source: identical weights and root give identical
  output, and the draws can matter only through the fallback parent of a node that is not
  the root.
\<close>

theorem edmond_chu_liu_deterministic:
  "fallback_free rnd1 lvl graph r \<Longrightarrow>
   edmond_chu_liu rnd2 lvl graph r = edmond_chu_liu rnd1 lvl graph r"
proof (induction rnd1 lvl graph r rule: edmond_chu_liu_induct)
  case (step rnd1 lvl graph r)
  let ?g = "graph[r := map (\<lambda>w. NegInf) (graph ! r)]"
  let ?n = "length graph"
  from step.prems have r: "r < ?n"
    and others0: "list_all (\<lambda>i. i = r \<or> idx_noninf (graph ! i) \<noteq> []) [0..<?n]"
    by (subst (asm) fallback_free.simps, simp split: if_splits)+
  have rg: "r < length ?g" using r by simp
  have root: "idx_noninf (?g ! r) = []" using r by simp
  have others: "\<forall>i < length ?g. i \<noteq> r \<longrightarrow> idx_noninf (?g ! i) \<noteq> []"
    using others0 by (auto simp: list_all_iff)
  have cleared: "\<forall>w \<in> set (?g ! r). w = NegInf" using r by auto
  note fc = find_cycle_change_root [OF rg root others, of rnd2 lvl rnd1]
  show ?case
  proof (cases "find_cycle rnd1 lvl ?g r")
    case (Inl e)
    with fc r show ?thesis
      by (simp add: edmond_chu_liu.simps [of _ lvl graph r])
  next
    case (Inr res)
    then obtain p loop vo where res: "find_cycle rnd1 lvl ?g r = Inr (p, loop, vo)"
      by (cases res) auto
    let ?p2 = "p[r := (r + rnd2 lvl r mod length ?g) mod length ?g]"
    from fc res have fc2: "find_cycle rnd2 lvl ?g r = Inr (?p2, loop, vo)" by simp
    note mn = merge_nodes_change_root [OF rg cleared, of p _ ?n loop vo]
    show ?thesis
    proof (cases "0 < length loop")
      case False
      with r res fc2 show ?thesis
        by (simp add: edmond_chu_liu.simps [of _ lvl graph r] base_mst_change_root)
    next
      case True
      show ?thesis
      proof (cases "merge_nodes ?g p ?n loop vo")
        case (Inl e)
        with r res fc2 True mn show ?thesis
          by (simp add: edmond_chu_liu.simps [of _ lvl graph r])
      next
        case (Inr m)
        then obtain v_map vtl ltv gm where
          m: "merge_nodes ?g p ?n loop vo = Inr (v_map, vtl, ltv, gm)"
          by (cases m) auto
        show ?thesis
        proof (cases "lookup v_map (loop ! 0)")
          case (Inl e)
          with r res fc2 True mn m show ?thesis
            by (simp add: edmond_chu_liu.simps [of _ lvl graph r])
        next
          case vc: (Inr vc)
          show ?thesis
          proof (cases "lookup v_map r")
            case (Inl e)
            with r res fc2 True mn m vc show ?thesis
              by (simp add: edmond_chu_liu.simps [of _ lvl graph r])
          next
            case rm: (Inr r_merged)
            from step.prems r others0 res True m vc rm
            have "fallback_free rnd1 (Suc lvl) gm r_merged"
              by (subst (asm) fallback_free.simps) simp
            with step.IH [OF r res True m vc rm]
            have "edmond_chu_liu rnd2 (Suc lvl) gm r_merged =
                  edmond_chu_liu rnd1 (Suc lvl) gm r_merged"
              by simp
            with r res fc2 True mn m vc rm show ?thesis
              by (simp add: edmond_chu_liu.simps [of _ lvl graph r])
          qed
        qed
      qed
    qed
  qed
qed

theorem edmond_chu_liu_deterministic_witness:
  "fallback_free (\<lambda>l i. 0) 0
     [[NegInf, NegInf, NegInf, NegInf], [Fin (-2), NegInf, Fin (-1), Fin (-1)],
      [Fin (-3), Fin (-1), NegInf, Fin (-1)], [Fin (-3), Fin (-1), Fin (-1), NegInf]] 0 \<and>
   edmond_chu_liu (\<lambda>l i. l + i + 1) 0
     [[NegInf, NegInf, NegInf, NegInf], [Fin (-2), NegInf, Fin (-1), Fin (-1)],
      [Fin (-3), Fin (-1), NegInf, Fin (-1)], [Fin (-3), Fin (-1), Fin (-1), NegInf]] 0 =
   edmond_chu_liu (\<lambda>l i. 0) 0
     [[NegInf, NegInf, NegInf, NegInf], [Fin (-2), NegInf, Fin (-1), Fin (-1)],
      [Fin (-3), Fin (-1), NegInf, Fin (-1)], [Fin (-3), Fin (-1), Fin (-1), NegInf]] 0"
proof -
  have h: "fallback_free (\<lambda>l i. 0) 0
     [[NegInf, NegInf, NegInf, NegInf], [Fin (-2), NegInf, Fin (-1), Fin (-1)],
      [Fin (-3), Fin (-1), NegInf, Fin (-1)], [Fin (-3), Fin (-1), Fin (-1), NegInf]] 0"
    by code_simp
  from edmond_chu_liu_deterministic [OF h] h show ?thesis by blast
qed

section \<open>Early stopping in \<^verbatim>\<open>BrODE.train\<close>\<close>

text \<open>
  The attributes of the trainer that the early-stop logic reads and writes, and the
  entries of \<^verbatim>\<open>self.config\<close> that steer the two loops. The optimisation step and
  the held-out evaluation are external: what \<^verbatim>\<open>self.test\<close> returns is given by a
  sequence \<open>ll\<close>, whose \<open>k\<close>-th element is the result of the \<open>k\<close>-th evaluation
  (evaluations are numbered by the length of \<^verbatim>\<open>loss_test\<close>, which grows by one at
  each of them).
\<close>

record trainer =
  counter :: nat
  n_drop :: nat
  loss_test :: "real list"

record train_config =
  n_epochs :: nat
  test_iter :: nat
  early_stop :: int
  early_stop_thred :: real
  n_update_noise :: nat
  save_epoch :: nat
  plot :: bool

text \<open>
  \<^verbatim>\<open>self.counter==1 or self.counter % self.config["test_iter"] == 0\<close>: the
  modulo is evaluated only when the counter is not 1, and raises on a zero divisor.
\<close>

definition test_due :: "train_config \<Rightarrow> nat \<Rightarrow> py_error + bool" where
  "test_due cfg c =
     (if c = 1 then Inr True
      else if test_iter cfg = 0 then Inl ZeroDivisionError
      else Inr (c mod test_iter cfg = 0))"

definition evaluate :: "train_config \<Rightarrow> (nat \<Rightarrow> real) \<Rightarrow> trainer \<Rightarrow> trainer" where
  "evaluate cfg ll s =
     (let ll_test = ll (length (loss_test s));
          nd = (if length (loss_test s) > 0
                then (if ll_test - last (loss_test s) \<le> early_stop_thred cfg
                      then n_drop s + 1 else 0)
                else n_drop s)
      in s\<lparr>n_drop := nd, loss_test := loss_test s @ [ll_test]\<rparr>)"

definition stop_now :: "train_config \<Rightarrow> trainer \<Rightarrow> bool" where
  "stop_now cfg s \<longleftrightarrow> early_stop cfg \<le> int (n_drop s) \<and> 0 < early_stop cfg"

text \<open>
  \<^verbatim>\<open>train_epoch\<close> over the batches that are left in the loader; it returns
  \<^verbatim>\<open>stop_training\<close>. A batch that is reached after a stop is not trained on.
\<close>

fun train_epoch ::
  "train_config \<Rightarrow> (nat \<Rightarrow> real) \<Rightarrow> nat \<Rightarrow> trainer \<Rightarrow> py_error + (bool \<times> trainer)" where
  "train_epoch cfg ll 0 s = Inr (False, s)"
| "train_epoch cfg ll (Suc batches) s =
     (case test_due cfg (counter s) of
        Inl e \<Rightarrow> Inl e
      | Inr True \<Rightarrow>
          if stop_now cfg (evaluate cfg ll s) then Inr (True, evaluate cfg ll s)
          else train_epoch cfg ll batches
                 ((evaluate cfg ll s)\<lparr>counter := counter (evaluate cfg ll s) + 1\<rparr>)
      | Inr False \<Rightarrow> train_epoch cfg ll batches (s\<lparr>counter := counter s + 1\<rparr>))"

text \<open>
  The epoch loop of \<^verbatim>\<open>train\<close>, with the number of epochs that are left and the
  index of the current one. It returns the number of epochs that were started, whether
  the loop was left by \<^verbatim>\<open>break\<close>, and the trainer.
\<close>

fun train_epochs ::
  "train_config \<Rightarrow> (nat \<Rightarrow> real) \<Rightarrow> nat \<Rightarrow> nat \<Rightarrow> nat \<Rightarrow> trainer \<Rightarrow>
   py_error + (nat \<times> bool \<times> trainer)" where
  "train_epochs cfg ll n_batches 0 epoch s = Inr (epoch, False, s)"
| "train_epochs cfg ll n_batches (Suc left) epoch s =
     (case train_epoch cfg ll n_batches s of
        Inl e \<Rightarrow> Inl e
      | Inr (stop_training, s') \<Rightarrow>
          if plot cfg \<and> epoch \<noteq> 0 \<and> save_epoch cfg = 0 then Inl ZeroDivisionError
          else if n_update_noise cfg = 0 then Inl ZeroDivisionError
          else if stop_training then Inr (epoch + 1, True, s')
          else train_epochs cfg ll n_batches left (epoch + 1) s')"

definition train ::
  "train_config \<Rightarrow> (nat \<Rightarrow> real) \<Rightarrow> nat \<Rightarrow> trainer \<Rightarrow> py_error + (nat \<times> bool \<times> trainer)" where
  "train cfg ll n_batches s = train_epochs cfg ll n_batches (n_epochs cfg) 0 s"

text \<open>
  The counter as the specification describes it, from the sequence of test
  log-likelihoods alone: after \<open>k\<close> evaluations it is the number of evaluations in a
  row, ending with the last one, whose improvement over the evaluation before was at or
  below the threshold. The iterations at which an evaluation is due, and how many are due
  before iteration \<open>c\<close>.
\<close>

fun plateau_count :: "(nat \<Rightarrow> real) \<Rightarrow> real \<Rightarrow> nat \<Rightarrow> nat" where
  "plateau_count ll thred 0 = 0"
| "plateau_count ll thred (Suc 0) = 0"
| "plateau_count ll thred (Suc (Suc k)) =
     (if ll (Suc k) - ll k \<le> thred then plateau_count ll thred (Suc k) + 1 else 0)"

definition eval_due :: "nat \<Rightarrow> nat \<Rightarrow> bool" where
  "eval_due t c \<longleftrightarrow> c = 1 \<or> c mod t = 0"

definition n_evals :: "nat \<Rightarrow> nat \<Rightarrow> nat" where
  "n_evals t c = length (filter (eval_due t) [0..<c])"


lemma n_evals_Suc: "n_evals t (Suc c) = n_evals t c + (if eval_due t c then 1 else 0)"
  by (simp add: n_evals_def)

lemma n_evals_mono: "c \<le> c' \<Longrightarrow> n_evals t c \<le> n_evals t c'"
  by (induction c' rule: dec_induct) (simp_all add: n_evals_Suc)

lemma test_due_Inr: "test_due cfg c = Inr b \<Longrightarrow> b = eval_due (test_iter cfg) c"
  by (auto simp: test_due_def eval_due_def split: if_splits)

text \<open>
  What holds of the trainer between two batches while training goes on, and what holds
  when an evaluation has just stopped it; \<open>m\<close> is the number of evaluations so far.
\<close>

definition running :: "train_config \<Rightarrow> (nat \<Rightarrow> real) \<Rightarrow> nat \<Rightarrow> trainer \<Rightarrow> bool" where
  "running cfg ll m s \<longleftrightarrow>
     loss_test s = map ll [0..<m] \<and>
     n_drop s = plateau_count ll (early_stop_thred cfg) m \<and>
     m = n_evals (test_iter cfg) (counter s) \<and>
     (\<forall>k \<le> m. int (plateau_count ll (early_stop_thred cfg) k) < early_stop cfg)"

definition stopped_at :: "train_config \<Rightarrow> (nat \<Rightarrow> real) \<Rightarrow> nat \<Rightarrow> trainer \<Rightarrow> bool" where
  "stopped_at cfg ll m s \<longleftrightarrow>
     loss_test s = map ll [0..<m] \<and>
     n_drop s = plateau_count ll (early_stop_thred cfg) m \<and>
     m = n_evals (test_iter cfg) (counter s) + 1 \<and>
     eval_due (test_iter cfg) (counter s) \<and>
     (\<forall>k < m. int (plateau_count ll (early_stop_thred cfg) k) < early_stop cfg) \<and>
     early_stop cfg \<le> int (n_drop s)"

lemma evaluate_fields:
  "counter (evaluate cfg ll s) = counter s"
  "loss_test (evaluate cfg ll s) = loss_test s @ [ll (length (loss_test s))]"
  "n_drop (evaluate cfg ll s) =
     (if loss_test s = [] then n_drop s
      else if ll (length (loss_test s)) - last (loss_test s) \<le> early_stop_thred cfg
      then n_drop s + 1 else 0)"
  by (simp_all add: evaluate_def Let_def)

lemma evaluate_plateau:
  assumes l: "loss_test s = map ll [0..<m]"
    and d: "n_drop s = plateau_count ll (early_stop_thred cfg) m"
  shows "loss_test (evaluate cfg ll s) = map ll [0..<Suc m]"
    and "n_drop (evaluate cfg ll s) = plateau_count ll (early_stop_thred cfg) (Suc m)"
proof -
  from l have len: "length (loss_test s) = m" by simp
  show "loss_test (evaluate cfg ll s) = map ll [0..<Suc m]"
    using l by (simp add: evaluate_fields(2))
  show "n_drop (evaluate cfg ll s) = plateau_count ll (early_stop_thred cfg) (Suc m)"
  proof (cases m)
    case 0
    with l d show ?thesis by (simp add: evaluate_fields(3))
  next
    case (Suc k)
    with l have ne: "loss_test s \<noteq> []" and la: "last (loss_test s) = ll k"
      by simp_all
    from ne la d Suc len show ?thesis by (simp add: evaluate_fields(3))
  qed
qed

lemma train_epoch_invariant:
  assumes "train_epoch cfg ll b s = Inr (stop, s')" and "running cfg ll m s" and "0 < early_stop cfg"
  shows "\<exists>m'. m \<le> m' \<and>
         (\<not> stop \<longrightarrow> running cfg ll m' s' \<and> counter s' = counter s + b) \<and>
         (stop \<longrightarrow> stopped_at cfg ll m' s' \<and> counter s \<le> counter s' \<and> counter s' < counter s + b)"
  using assms(1,2)
proof (induction b arbitrary: s m)
  case 0
  then show ?case by auto
next
  case (Suc b)
  from Suc.prems(1) obtain due where due: "test_due cfg (counter s) = Inr due"
    by (auto split: sum.splits)
  note due' = test_due_Inr [OF due]
  from Suc.prems(2) have l: "loss_test s = map ll [0..<m]"
    and d: "n_drop s = plateau_count ll (early_stop_thred cfg) m"
    and n: "m = n_evals (test_iter cfg) (counter s)"
    and below: "\<forall>k \<le> m. int (plateau_count ll (early_stop_thred cfg) k) < early_stop cfg"
    by (simp_all add: running_def)
  show ?case
  proof (cases due)
    case False
    let ?s1 = "s\<lparr>counter := counter s + 1\<rparr>"
    from Suc.prems(1) due False have run: "train_epoch cfg ll b ?s1 = Inr (stop, s')" by simp
    have "running cfg ll m ?s1"
      unfolding running_def using l d n below False due' by (simp add: n_evals_Suc)
    from Suc.IH [OF run this] show ?thesis by auto
  next
    case True
    let ?e = "evaluate cfg ll s"
    note ev = evaluate_plateau [OF l d]
    show ?thesis
    proof (cases "stop_now cfg ?e")
      case stop_here: True
      with Suc.prems(1) due True have res: "stop = True" "s' = ?e" by simp_all
      have "stopped_at cfg ll (Suc m) ?e"
        unfolding stopped_at_def
        using ev n below stop_here True due'
        by (auto simp: evaluate_fields(1) stop_now_def less_Suc_eq_le)
      with res show ?thesis by (auto simp: evaluate_fields(1) intro!: exI [of _ "Suc m"])
    next
      case go_on: False
      let ?s1 = "?e\<lparr>counter := counter ?e + 1\<rparr>"
      from Suc.prems(1) due True go_on have run: "train_epoch cfg ll b ?s1 = Inr (stop, s')"
        by simp
      from go_on assms(3) have "int (n_drop ?e) < early_stop cfg"
        by (simp add: stop_now_def)
      with ev(2) below
      have below': "\<forall>k \<le> Suc m. int (plateau_count ll (early_stop_thred cfg) k) < early_stop cfg"
        by (auto simp: le_Suc_eq)
      have "running cfg ll (Suc m) ?s1"
        unfolding running_def
        using ev n below' True due' by (simp add: evaluate_fields(1) n_evals_Suc)
      from Suc.IH [OF run this] obtain m' where "Suc m \<le> m'"
        and "\<not> stop \<longrightarrow> running cfg ll m' s' \<and> counter s' = counter ?s1 + b"
        and "stop \<longrightarrow> stopped_at cfg ll m' s' \<and> counter ?s1 \<le> counter s' \<and>
             counter s' < counter ?s1 + b"
        by blast
      then show ?thesis by (auto simp: evaluate_fields(1) intro!: exI [of _ m'])
    qed
  qed
qed

lemma train_epochs_invariant:
  assumes "train_epochs cfg ll nb left epoch s = Inr (epochs_run, stop, s')"
    and "running cfg ll m s" and "0 < early_stop cfg" and "counter s = nb * epoch"
  shows "\<exists>m'. m \<le> m' \<and>
         (\<not> stop \<longrightarrow> running cfg ll m' s' \<and> counter s' = nb * (epoch + left) \<and>
            epochs_run = epoch + left) \<and>
         (stop \<longrightarrow> stopped_at cfg ll m' s' \<and> counter s' < nb * (epoch + left) \<and>
            epochs_run = counter s' div nb + 1 \<and> epochs_run \<le> epoch + left)"
  using assms(1,2,4)
proof (induction left arbitrary: epoch s m)
  case 0
  then show ?case by auto
next
  case (Suc left)
  from Suc.prems(1) obtain st s1 where ep: "train_epoch cfg ll nb s = Inr (st, s1)"
    by (auto split: sum.splits)
  from train_epoch_invariant [OF ep Suc.prems(2) assms(3)] obtain m1 where m1: "m \<le> m1"
    and go: "\<not> st \<Longrightarrow> running cfg ll m1 s1 \<and> counter s1 = counter s + nb"
    and halt: "st \<Longrightarrow> stopped_at cfg ll m1 s1 \<and> counter s \<le> counter s1 \<and> counter s1 < counter s + nb"
    by blast
  show ?case
  proof (cases st)
    case True
    with Suc.prems(1) ep have res: "stop" "s' = s1" "epochs_run = epoch + 1"
      by (auto split: if_splits)
    from halt [OF True] Suc.prems(3) have c: "nb * epoch \<le> counter s1" "counter s1 < nb * epoch + nb"
      by simp_all
    then have nb: "0 < nb" by simp
    from c have "counter s1 div nb = epoch"
      by (metis add.commute div_mult_self3 div_less less_imp_add_positive nat_add_left_cancel_less
          nb add_cancel_right_right le_Suc_ex mult.commute nat_neq_iff)
    with res c halt [OF True] m1 show ?thesis
      by (auto simp: algebra_simps intro!: exI [of _ m1])
  next
    case False
    with Suc.prems(1) ep have run: "train_epochs cfg ll nb left (epoch + 1) s1 = Inr (epochs_run, stop, s')"
      by (auto split: if_splits)
    from go [OF False] Suc.prems(3) have c1: "counter s1 = nb * (epoch + 1)" by simp
    from Suc.IH [OF run _ c1] go [OF False] obtain m' where "m1 \<le> m'"
      and "\<not> stop \<longrightarrow> running cfg ll m' s' \<and> counter s' = nb * (epoch + 1 + left) \<and>
            epochs_run = epoch + 1 + left"
      and "stop \<longrightarrow> stopped_at cfg ll m' s' \<and> counter s' < nb * (epoch + 1 + left) \<and>
            epochs_run = counter s' div nb + 1 \<and> epochs_run \<le> epoch + 1 + left"
      by blast
    with m1 show ?thesis by (auto intro!: exI [of _ m'])
  qed
qed

lemma plateau_count_run:
  assumes "1 \<le> j" and "\<forall>i < e. ll (j + i) - ll (j + i - 1) \<le> thred"
  shows "e \<le> plateau_count ll thred (j + e)"
  using assms(2)
proof (induction e)
  case 0
  then show ?case by simp
next
  case (Suc e)
  from assms(1) obtain j' where j: "j = Suc j'" by (cases j) auto
  from Suc.prems have "ll (j + e) - ll (j + e - 1) \<le> thred" by simp
  with j have step: "ll (Suc (j' + e)) - ll (j' + e) \<le> thred" by simp
  from Suc have "e \<le> plateau_count ll thred (j + e)" by simp
  with step j show ?case by simp
qed


text \<open>
  C3. Each evaluation adds one to \<^verbatim>\<open>n_drop\<close> when the test log-likelihood has
  improved on the evaluation before by no more than \<^verbatim>\<open>early_stop_thred\<close>, and
  sets it to 0 otherwise (the first evaluation, which has none before it, leaves it as it
  is). For a run of \<^verbatim>\<open>train\<close> from a fresh trainer with \<^verbatim>\<open>early_stop > 0\<close>:
  the recorded losses are the evaluations made, \<^verbatim>\<open>n_drop\<close> is the length of the
  plateau they end with, and it was below \<^verbatim>\<open>early_stop\<close> after every evaluation but
  the last; the epoch loop is left by \<^verbatim>\<open>break\<close> exactly when \<^verbatim>\<open>n_drop\<close> has
  reached \<^verbatim>\<open>early_stop\<close>, and then the run ended at that evaluation, with
  iterations still left, in the epoch of that iteration; otherwise all iterations of all
  epochs were run. In particular, if from some evaluation on the improvement stays at or
  below the threshold for \<^verbatim>\<open>early_stop\<close> evaluations in a row, and the whole
  training would reach that many evaluations, then the loop is left by \<^verbatim>\<open>break\<close>,
  no later than at the last of them.
\<close>

theorem early_stop_counter_halts_training:
  assumes run: "train cfg ll n_batches \<lparr>counter = 0, n_drop = 0, loss_test = []\<rparr> =
      Inr (epochs_run, stopped, s)"
    and es: "0 < early_stop cfg"
  shows "n_drop (evaluate cfg ll t) =
       (if loss_test t = [] then n_drop t
        else if ll (length (loss_test t)) - last (loss_test t) \<le> early_stop_thred cfg
        then n_drop t + 1 else 0) \<and>
     loss_test s = map ll [0..<length (loss_test s)] \<and>
     n_drop s = plateau_count ll (early_stop_thred cfg) (length (loss_test s)) \<and>
     (\<forall>k < length (loss_test s).
        int (plateau_count ll (early_stop_thred cfg) k) < early_stop cfg) \<and>
     (stopped \<longleftrightarrow> early_stop cfg \<le> int (n_drop s)) \<and>
     (stopped \<longrightarrow>
        eval_due (test_iter cfg) (counter s) \<and>
        length (loss_test s) = n_evals (test_iter cfg) (counter s) + 1 \<and>
        counter s < n_batches * n_epochs cfg \<and>
        epochs_run = counter s div n_batches + 1 \<and> epochs_run \<le> n_epochs cfg) \<and>
     (\<not> stopped \<longrightarrow>
        counter s = n_batches * n_epochs cfg \<and>
        length (loss_test s) = n_evals (test_iter cfg) (counter s) \<and>
        epochs_run = n_epochs cfg) \<and>
     (\<forall>j. 1 \<le> j \<and>
          (\<forall>i < nat (early_stop cfg). ll (j + i) - ll (j + i - 1) \<le> early_stop_thred cfg) \<and>
          j + nat (early_stop cfg) \<le> n_evals (test_iter cfg) (n_batches * n_epochs cfg) \<longrightarrow>
          stopped \<and> length (loss_test s) \<le> j + nat (early_stop cfg))"
proof -
  let ?thr = "early_stop_thred cfg" and ?E = "early_stop cfg" and ?t = "test_iter cfg"
  let ?init = "\<lparr>counter = 0, n_drop = 0, loss_test = []\<rparr>"
  have init: "running cfg ll 0 ?init"
    using es by (simp add: running_def n_evals_def)
  from run have run': "train_epochs cfg ll n_batches (n_epochs cfg) 0 ?init =
      Inr (epochs_run, stopped, s)"
    by (simp add: train_def)
  from train_epochs_invariant [OF run' init es] obtain m where
    go: "\<not> stopped \<Longrightarrow> running cfg ll m s \<and> counter s = n_batches * n_epochs cfg \<and>
            epochs_run = n_epochs cfg"
    and halt: "stopped \<Longrightarrow> stopped_at cfg ll m s \<and> counter s < n_batches * n_epochs cfg \<and>
            epochs_run = counter s div n_batches + 1 \<and> epochs_run \<le> n_epochs cfg"
    by auto
  have l: "loss_test s = map ll [0..<m]"
    using go halt by (cases stopped) (simp_all add: running_def stopped_at_def)
  then have len: "length (loss_test s) = m" by simp
  have d: "n_drop s = plateau_count ll ?thr m"
    using go halt by (cases stopped) (simp_all add: running_def stopped_at_def)
  have below: "\<forall>k < m. int (plateau_count ll ?thr k) < ?E"
    using go halt by (cases stopped) (simp_all add: running_def stopped_at_def)
  have iff: "stopped \<longleftrightarrow> ?E \<le> int (n_drop s)"
  proof
    assume stopped
    from halt [OF this] have "stopped_at cfg ll m s" by simp
    then show "?E \<le> int (n_drop s)" unfolding stopped_at_def by blast
  next
    assume reached: "?E \<le> int (n_drop s)"
    show stopped
    proof (rule ccontr)
      assume "\<not> stopped"
      from go [OF this] have "int (plateau_count ll ?thr m) < ?E"
        by (simp add: running_def)
      with reached d show False by simp
    qed
  qed
  have scenario: "stopped \<and> m \<le> j + nat ?E"
    if j: "1 \<le> j" and flat: "\<forall>i < nat ?E. ll (j + i) - ll (j + i - 1) \<le> ?thr"
      and enough: "j + nat ?E \<le> n_evals ?t (n_batches * n_epochs cfg)" for j
  proof -
    from plateau_count_run [OF j flat] have high: "?E \<le> int (plateau_count ll ?thr (j + nat ?E))"
      by simp
    have le: "m \<le> j + nat ?E"
    proof (rule ccontr)
      assume "\<not> m \<le> j + nat ?E"
      with below have "int (plateau_count ll ?thr (j + nat ?E)) < ?E" by simp
      with high show False by simp
    qed
    have stopped
    proof (rule ccontr)
      assume ns: "\<not> stopped"
      from go [OF ns] have "m = n_evals ?t (n_batches * n_epochs cfg)"
        and "int (plateau_count ll ?thr m) < ?E"
        by (simp_all add: running_def)
      with enough le have "m = j + nat ?E" by simp
      with \<open>int (plateau_count ll ?thr m) < ?E\<close> high show False by simp
    qed
    with le show ?thesis by simp
  qed
  have stop_facts: "eval_due ?t (counter s) \<and> m = n_evals ?t (counter s) + 1" if stopped
    using halt [OF that] by (simp add: stopped_at_def)
  have go_facts: "m = n_evals ?t (counter s)" if "\<not> stopped"
    using go [OF that] by (simp add: running_def)
  have c1: "n_drop (evaluate cfg ll t) =
       (if loss_test t = [] then n_drop t
        else if ll (length (loss_test t)) - last (loss_test t) \<le> ?thr
        then n_drop t + 1 else 0)"
    by (rule evaluate_fields(3))
  have c6: "stopped \<longrightarrow>
        eval_due ?t (counter s) \<and> m = n_evals ?t (counter s) + 1 \<and>
        counter s < n_batches * n_epochs cfg \<and>
        epochs_run = counter s div n_batches + 1 \<and> epochs_run \<le> n_epochs cfg"
    using halt stop_facts by blast
  have c7: "\<not> stopped \<longrightarrow>
        counter s = n_batches * n_epochs cfg \<and> m = n_evals ?t (counter s) \<and>
        epochs_run = n_epochs cfg"
    using go go_facts by blast
  have c8: "\<forall>j. 1 \<le> j \<and>
          (\<forall>i < nat ?E. ll (j + i) - ll (j + i - 1) \<le> ?thr) \<and>
          j + nat ?E \<le> n_evals ?t (n_batches * n_epochs cfg) \<longrightarrow>
          stopped \<and> m \<le> j + nat ?E"
    using scenario by blast
  from c1 l d below iff c6 c7 c8 show ?thesis
    unfolding len by (intro conjI)
qed

theorem early_stop_counter_halts_training_witness:
  "\<exists>s. train \<lparr>n_epochs = 10, test_iter = 2, early_stop = 3, early_stop_thred = 1 / 100,
            n_update_noise = 25, save_epoch = 100, plot = False\<rparr>
          (\<lambda>k. 0) 4 \<lparr>counter = 0, n_drop = 0, loss_test = []\<rparr> = Inr (2, True, s) \<and>
        n_drop s = 3 \<and> counter s = 4 \<and> length (loss_test s) = 4 \<and>
        n_drop s = plateau_count (\<lambda>k. 0) (1 / 100) (length (loss_test s))"
proof -
  let ?cfg = "\<lparr>n_epochs = 10, test_iter = 2, early_stop = 3, early_stop_thred = 1 / 100,
            n_update_noise = 25, save_epoch = 100, plot = False\<rparr>"
  have run: "train ?cfg (\<lambda>k. 0) 4 \<lparr>counter = 0, n_drop = 0, loss_test = []\<rparr> =
      Inr (2, True, \<lparr>counter = 4, n_drop = 3, loss_test = [0, 0, 0, 0]\<rparr>)"
    by code_simp
  have es: "0 < early_stop ?cfg" by simp
  from early_stop_counter_halts_training [OF run es, of undefined]
  have "n_drop \<lparr>counter = 4, n_drop = 3, loss_test = [0, 0, 0, 0]\<rparr> =
      plateau_count (\<lambda>k. 0) (early_stop_thred ?cfg)
        (length (loss_test \<lparr>counter = 4, n_drop = 3, loss_test = [0, 0, 0, 0 :: real]\<rparr>))"
    by blast
  with run show ?thesis by simp
qed

section \<open>Pruning the type-to-type transition matrix\<close>

text \<open>
  Lines 415 to 431 of \<^verbatim>\<open>compute_transition_deterministic\<close>. The input is the
  row-normalised matrix \<^verbatim>\<open>P_raw\<close> (entries are real numbers here; rounding is not
  modelled), the initial times \<^verbatim>\<open>t_init\<close> and \<^verbatim>\<open>n_par\<close>.
  \<^verbatim>\<open>np.argsort\<close> is a parameter: numpy fixes the order of equal entries only for
  its stable sorts, and the theorems say what they need of it. \<open>stable_argsort\<close> is the
  stable one.
\<close>

definition is_argsort :: "(real list \<Rightarrow> nat list) \<Rightarrow> bool" where
  "is_argsort argsort \<longleftrightarrow>
     (\<forall>row. distinct (argsort row) \<and> set (argsort row) = {0..<length row} \<and>
            sorted (map (\<lambda>j. row ! j) (argsort row)))"

definition stable_argsort :: "real list \<Rightarrow> nat list" where
  "stable_argsort row = sort_key (\<lambda>j. row ! j) [0..<length row]"

text \<open>
  The inner loop over \<^verbatim>\<open>idx_sort\<close>: a column that is not the row's own type and
  whose type starts no later is kept and counted; the loop is left when the count equals
  \<^verbatim>\<open>n_par\<close>, which is tested after every column.
\<close>

fun keep_parents ::
  "nat list \<Rightarrow> nat \<Rightarrow> real list \<Rightarrow> real list \<Rightarrow> int \<Rightarrow> nat \<Rightarrow> real list \<Rightarrow> real list" where
  "keep_parents [] i t_init raw n_par count row = row"
| "keep_parents (k # idx_sort) i t_init raw n_par count row =
     (if k \<noteq> i \<and> t_init ! k \<le> t_init ! i
      then (if int (count + 1) = n_par then row[k := raw ! k]
            else keep_parents idx_sort i t_init raw n_par (count + 1) (row[k := raw ! k]))
      else (if int count = n_par then row
            else keep_parents idx_sort i t_init raw n_par count row))"

text \<open>The floor weight \<^verbatim>\<open>1e-3\<close> for every type that starts strictly earlier.\<close>

definition add_floor :: "real list \<Rightarrow> nat \<Rightarrow> real list \<Rightarrow> real list" where
  "add_floor t_init i row =
     map (\<lambda>j. if t_init ! j < t_init ! i then row ! j + 1 / 1000 else row ! j) [0..<length row]"

text \<open>
  Division of floats as numpy does it: a zero divisor gives \<^verbatim>\<open>nan\<close> for a zero
  dividend (the value \<open>None\<close>) and an infinity otherwise, with a warning and no
  exception.
\<close>

definition np_divide :: "real \<Rightarrow> real \<Rightarrow> weight option" where
  "np_divide x s =
     (if s \<noteq> 0 then Some (Fin (x / s))
      else if x = 0 then None
      else if 0 < x then Some PosInf else Some NegInf)"

text \<open>
  One row of \<^verbatim>\<open>P\<close>: the kept parents, the assertion, the floor, and the division
  by the row sum. The matrix is pruned row by row.
\<close>

definition pruned_row ::
  "(real list \<Rightarrow> nat list) \<Rightarrow> int \<Rightarrow> real list \<Rightarrow> real list \<Rightarrow> nat \<Rightarrow> py_error + weight option list" where
  "pruned_row argsort n_par t_init raw i =
     (let idx_sort = rev (argsort raw);
          row = keep_parents idx_sort i t_init raw n_par 0 (replicate (length raw) 0)
      in if row ! i \<noteq> 0 then Inl AssertionError
         else let floored = add_floor t_init i row
              in Inr (map (\<lambda>x. np_divide x (sum_list floored)) floored))"

definition transition_P ::
  "(real list \<Rightarrow> nat list) \<Rightarrow> int \<Rightarrow> real list \<Rightarrow> real list list \<Rightarrow>
   py_error + weight option list list" where
  "transition_P argsort n_par t_init P_raw =
     map_each (\<lambda>i. pruned_row argsort n_par t_init (P_raw ! i) i) [0..<length P_raw]"


subsection \<open>Rows without a parent\<close>

lemma keep_parents_length [simp]:
  "length (keep_parents ks i t raw np c row) = length row"
  by (induction ks i t raw np c row rule: keep_parents.induct) auto

lemma keep_parents_entry:
  "keep_parents ks i t raw np c row ! k = row ! k \<or>
   (k \<in> set ks \<and> k \<noteq> i \<and> t ! k \<le> t ! i \<and> keep_parents ks i t raw np c row ! k = raw ! k)"
proof (induction ks i t raw np c row rule: keep_parents.induct)
  case (1 i t raw np c row)
  then show ?case by simp
next
  case (2 k' ks i t raw np c row)
  show ?case
  proof (cases "k' \<noteq> i \<and> t ! k' \<le> t ! i")
    case cand: True
    show ?thesis
    proof (cases "int (c + 1) = np")
      case True
      with cand show ?thesis
        by (cases "k' < length row") (auto simp: nth_list_update list_update_beyond split: if_splits)
    next
      case False
      with cand "2.IH"(1) have
        "keep_parents ks i t raw np (c + 1) (row[k' := raw ! k']) ! k = row[k' := raw ! k'] ! k \<or>
         (k \<in> set ks \<and> k \<noteq> i \<and> t ! k \<le> t ! i \<and>
          keep_parents ks i t raw np (c + 1) (row[k' := raw ! k']) ! k = raw ! k)"
        by simp
      with cand False show ?thesis
        by (cases "k' < length row") (auto simp: nth_list_update list_update_beyond split: if_splits)
    qed
  next
    case False
    with "2.IH"(2) show ?thesis by (cases "int c = np") auto
  qed
qed

lemma keep_parents_diag: "keep_parents ks i t raw np c row ! i = row ! i"
  using keep_parents_entry [of ks i t raw np c row i] by auto

lemma pruned_row_no_assertion:
  "i < length raw \<Longrightarrow>
   pruned_row argsort n_par t_init raw i =
     (let floored = add_floor t_init i
            (keep_parents (rev (argsort raw)) i t_init raw n_par 0 (replicate (length raw) 0))
      in Inr (map (\<lambda>x. np_divide x (sum_list floored)) floored))"
  by (simp add: pruned_row_def Let_def keep_parents_diag)

lemma add_floor_length [simp]: "length (add_floor t i row) = length row"
  by (simp add: add_floor_def)

lemma add_floor_diag: "i < length row \<Longrightarrow> add_floor t i row ! i = row ! i"
  by (simp add: add_floor_def)

text \<open>
  A row whose pruned sum is not zero is a distribution with a zero on the diagonal; a
  row whose entries are all zero before the division is \<^verbatim>\<open>nan\<close> throughout.
\<close>

lemma pruned_row_normalised:
  assumes i: "i < length raw"
    and sum: "sum_list (add_floor t_init i
        (keep_parents (rev (argsort raw)) i t_init raw n_par 0 (replicate (length raw) 0))) \<noteq> 0"
  shows "\<exists>p. pruned_row argsort n_par t_init raw i = Inr (map (\<lambda>x. Some (Fin x)) p) \<and>
     length p = length raw \<and> sum_list p = 1 \<and> p ! i = 0"
proof -
  let ?fl = "add_floor t_init i
        (keep_parents (rev (argsort raw)) i t_init raw n_par 0 (replicate (length raw) 0))"
  let ?p = "map (\<lambda>x. x / sum_list ?fl) ?fl"
  have "pruned_row argsort n_par t_init raw i = Inr (map (\<lambda>x. Some (Fin x)) ?p)"
    using sum by (simp add: pruned_row_no_assertion [OF i] Let_def np_divide_def)
  moreover have "sum_list ?p = 1"
    using sum by (simp add: divide_inverse sum_list_mult_const)
  moreover have "?fl ! i = 0"
    using i by (simp add: add_floor_diag keep_parents_diag)
  then have "?p ! i = 0" using i by simp
  ultimately show ?thesis by (intro exI [of _ ?p]) simp
qed

lemma keep_parents_no_candidate:
  assumes "\<forall>k \<in> set ks. k \<noteq> i \<longrightarrow> \<not> t ! k \<le> t ! i"
  shows "keep_parents ks i t raw np c row = row"
  using assms by (induction ks i t raw np c row rule: keep_parents.induct) auto


lemma map_each_total:
  assumes "\<forall>x \<in> set xs. \<exists>v. f x = Inr v"
  shows "\<exists>vs. map_each f xs = Inr vs \<and> length vs = length xs \<and>
     (\<forall>j < length xs. f (xs ! j) = Inr (vs ! j))"
  using assms
proof (induction xs)
  case Nil
  then show ?case by simp
next
  case (Cons x xs)
  then obtain v vs where v: "f x = Inr v" and vs: "map_each f xs = Inr vs"
    "length vs = length xs" "\<forall>j < length xs. f (xs ! j) = Inr (vs ! j)"
    by auto
  have "\<forall>j < length (x # xs). f ((x # xs) ! j) = Inr ((v # vs) ! j)"
    using v vs(3) by (auto simp: nth_Cons')
  with v vs show ?case by (intro exI [of _ "v # vs"]) simp
qed

lemma transition_P_rows:
  assumes "\<forall>i < length P_raw. i < length (P_raw ! i)"
  shows "\<exists>P. transition_P argsort n_par t_init P_raw = Inr P \<and> length P = length P_raw \<and>
     (\<forall>i < length P_raw. pruned_row argsort n_par t_init (P_raw ! i) i = Inr (P ! i))"
proof -
  have "\<forall>i \<in> set [0..<length P_raw]. \<exists>v. pruned_row argsort n_par t_init (P_raw ! i) i = Inr v"
    using assms by (simp add: pruned_row_no_assertion Let_def)
  from map_each_total [OF this] show ?thesis
    by (auto simp: transition_P_def)
qed

lemma pruned_row_no_parent:
  assumes arg: "is_argsort argsort" and i: "i < length raw"
    and alone: "\<forall>k < length raw. k \<noteq> i \<longrightarrow> \<not> t_init ! k \<le> t_init ! i"
  shows "pruned_row argsort n_par t_init raw i = Inr (replicate (length raw) None)"
proof -
  let ?zeros = "replicate (length raw) (0::real)"
  from arg have range: "set (rev (argsort raw)) = {0..<length raw}"
    by (simp add: is_argsort_def)
  have kept: "keep_parents (rev (argsort raw)) i t_init raw n_par 0 ?zeros = ?zeros"
    by (rule keep_parents_no_candidate) (use range alone in auto)
  have "\<forall>j < length raw. \<not> t_init ! j < t_init ! i"
    using alone by (metis less_irrefl less_le_not_le)
  then have fl: "add_floor t_init i ?zeros = ?zeros"
    by (auto simp: add_floor_def intro!: nth_equalityI)
  have zero: "sum_list ?zeros = 0" by (simp add: sum_list_replicate)
  show ?thesis
    by (simp add: pruned_row_no_assertion [OF i] kept fl Let_def np_divide_def zero
        map_replicate_const)
qed

text \<open>
  C2, where the code departs from it. A type that starts strictly before every other type
  has no valid parent; its row of \<^verbatim>\<open>P\<close> is all zero before the division by the
  row sum, so every entry of the row is \<^verbatim>\<open>0 / 0 = nan\<close>: the row does not sum to
  1, its diagonal entry is not 0, and there is no self-weight 1.
\<close>

theorem earliest_type_row_is_nan:
  assumes "is_argsort argsort"
    and "\<forall>k < length P_raw. length (P_raw ! k) = length P_raw"
    and "i < length P_raw"
    and "\<forall>k < length P_raw. k \<noteq> i \<longrightarrow> t_init ! i < t_init ! k"
  shows "\<exists>P. transition_P argsort n_par t_init P_raw = Inr P \<and>
     P ! i = replicate (length P_raw) None"
proof -
  from assms(2) have "\<forall>k < length P_raw. k < length (P_raw ! k)" by simp
  from transition_P_rows [OF this, of argsort n_par t_init] obtain P where
    P: "transition_P argsort n_par t_init P_raw = Inr P"
    and rows: "\<forall>k < length P_raw. pruned_row argsort n_par t_init (P_raw ! k) k = Inr (P ! k)"
    by blast
  have i': "i < length (P_raw ! i)" using assms(2,3) by simp
  have "\<forall>k < length (P_raw ! i). k \<noteq> i \<longrightarrow> \<not> t_init ! k \<le> t_init ! i"
    using assms(2,3,4) by auto
  from pruned_row_no_parent [OF assms(1) i' this, of n_par] rows assms(2,3)
  have "P ! i = replicate (length P_raw) None" by simp
  with P show ?thesis by blast
qed

lemma stable_argsort_ok: "is_argsort stable_argsort"
  by (auto simp: is_argsort_def stable_argsort_def)

theorem earliest_type_row_is_nan_witness:
  "transition_P stable_argsort 2 [0, 1] [[1, 0], [1 / 2, 1 / 2]] =
     Inr [[None, None], [Some (Fin 1), Some (Fin 0)]]"
proof -
  have sq: "\<forall>k < length [[1, 0], [1 / 2, 1 / 2 :: real]].
      length ([[1, 0], [1 / 2, 1 / 2 :: real]] ! k) = length [[1, 0], [1 / 2, 1 / 2 :: real]]"
    by (simp add: nth_Cons' less_Suc_eq)
  have first: "\<forall>k < length [[1, 0], [1 / 2, 1 / 2 :: real]].
      k \<noteq> 0 \<longrightarrow> [0, 1 :: real] ! 0 < [0, 1] ! k"
    by (simp add: nth_Cons' less_Suc_eq)
  from earliest_type_row_is_nan [OF stable_argsort_ok sq _ first, of 2]
  obtain P where "transition_P stable_argsort 2 [0, 1] [[1, 0], [1 / 2, 1 / 2]] = Inr P"
    and "P ! 0 = replicate (length [[1, 0], [1 / 2, 1 / 2 :: real]]) None"
    by auto
  moreover have "transition_P stable_argsort 2 [0, 1] [[1, 0], [1 / 2, 1 / 2]] =
     Inr [[None, None], [Some (Fin 1), Some (Fin 0)]]"
    by code_simp
  ultimately show ?thesis by simp
qed


subsection \<open>Running the pruning step a second time\<close>

lemma nonzero_update:
  "length (filter (\<lambda>x. x \<noteq> 0) (row[k := v])) \<le> Suc (length (filter (\<lambda>x. x \<noteq> (0::real)) row))"
proof (induction row arbitrary: k)
  case Nil
  then show ?case by simp
next
  case (Cons a row)
  show ?case
  proof (cases k)
    case 0
    then show ?thesis by simp
  next
    case (Suc m)
    with Cons.IH [of m] show ?thesis by simp
  qed
qed

lemma keep_parents_count:
  "int c < np \<Longrightarrow>
   length (filter (\<lambda>x. x \<noteq> 0) (keep_parents ks i t raw np c row)) \<le>
   length (filter (\<lambda>x. x \<noteq> 0) row) + nat (np - int c)"
proof (induction ks i t raw np c row rule: keep_parents.induct)
  case (1 i t raw np c row)
  then show ?case by simp
next
  case (2 k ks i t raw np c row)
  show ?case
  proof (cases "k \<noteq> i \<and> t ! k \<le> t ! i")
    case cand: True
    note up = nonzero_update [of row k "raw ! k"]
    show ?thesis
    proof (cases "int (c + 1) = np")
      case True
      with cand up show ?thesis by simp
    next
      case False
      with "2.prems" have lt: "int (c + 1) < np" by simp
      from "2.IH"(1) [OF cand False lt] up cand False "2.prems" show ?thesis
        by simp
    qed
  next
    case False
    from "2.prems" have ne: "int c \<noteq> np" by simp
    from "2.IH"(2) [OF False ne "2.prems"] False ne show ?thesis by auto
  qed
qed

text \<open>
  The second pass over a row that is already pruned: when the columns with a positive
  entry come first, all of them may be parents, and the loop is not left among them, the
  kept row has the given entry at each of them.
\<close>

lemma keep_parents_prefix:
  assumes "\<forall>k \<in> set pos. k \<noteq> i \<and> t ! k \<le> t ! i \<and> k < length row"
    and "\<forall>j < length pos. int (c + j + 1) = np \<longrightarrow> j + 1 = length pos"
  shows "\<forall>k \<in> set pos. keep_parents (pos @ rest) i t p np c row ! k = p ! k"
  using assms
proof (induction pos arbitrary: c row)
  case Nil
  then show ?case by simp
next
  case (Cons a pos)
  from Cons.prems(1) have cand: "a \<noteq> i \<and> t ! a \<le> t ! i" and a: "a < length row" by simp_all
  show ?case
  proof (cases "int (c + 1) = np")
    case True
    with Cons.prems(2) [rule_format, of 0] have "pos = []" by simp
    with True cand a show ?thesis by simp
  next
    case False
    let ?row = "row[a := p ! a]"
    have 1: "\<forall>k \<in> set pos. k \<noteq> i \<and> t ! k \<le> t ! i \<and> k < length ?row"
      using Cons.prems(1) by simp
    have 2: "\<forall>j < length pos. int (c + 1 + j + 1) = np \<longrightarrow> j + 1 = length pos"
    proof (intro allI impI)
      fix j assume "j < length pos" and "int (c + 1 + j + 1) = np"
      with Cons.prems(2) [rule_format, of "Suc j"] show "j + 1 = length pos" by simp
    qed
    from Cons.IH [OF 1 2] have IH: "\<forall>k \<in> set pos. keep_parents (pos @ rest) i t p np (c + 1) ?row ! k = p ! k" .
    have run: "keep_parents ((a # pos) @ rest) i t p np c row =
        keep_parents (pos @ rest) i t p np (c + 1) ?row"
      using cand False by simp
    have "keep_parents (pos @ rest) i t p np (c + 1) ?row ! a = p ! a"
      using keep_parents_entry [of "pos @ rest" i t p np "c + 1" ?row a] a by auto
    with IH run show ?thesis by simp
  qed
qed

lemma np_divide_finite: "np_divide x s = Some (Fin y) \<Longrightarrow> s \<noteq> 0 \<and> y = x / s"
  by (auto simp: np_divide_def split: if_splits)

text \<open>
  C7 (as amended). The pruning step is idempotent on the rows that get no floor weight:
  if no type starts strictly before type \<open>i\<close>, the weights are not negative and row
  \<open>i\<close> of the pruned matrix is a row of numbers (its kept weights do not sum to zero),
  then pruning that row again, with the same initial times and the same \<^verbatim>\<open>n_par\<close>,
  returns it unchanged.
\<close>

theorem pruning_idempotent_without_floor:
  assumes arg: "is_argsort argsort"
    and i: "i < length raw"
    and nonneg: "\<forall>x \<in> set raw. 0 \<le> x"
    and no_floor: "\<forall>j < length raw. \<not> t_init ! j < t_init ! i"
    and pruned: "pruned_row argsort n_par t_init raw i = Inr (map (\<lambda>x. Some (Fin x)) p)"
  shows "pruned_row argsort n_par t_init p i = Inr (map (\<lambda>x. Some (Fin x)) p)"
proof -
  let ?n = "length raw"
  let ?zeros = "replicate ?n (0::real)"
  let ?row1 = "keep_parents (rev (argsort raw)) i t_init raw n_par 0 ?zeros"
  let ?s1 = "sum_list ?row1"
  have fl1: "add_floor t_init i ?row1 = ?row1"
    using no_floor by (auto simp: add_floor_def intro!: nth_equalityI)
  from pruned have eq: "map (\<lambda>x. np_divide x ?s1) ?row1 = map (\<lambda>x. Some (Fin x)) p"
    by (simp add: pruned_row_no_assertion [OF i] Let_def fl1)
  then have len: "length p = ?n"
    by (metis length_map keep_parents_length length_replicate)
  have entry: "np_divide (?row1 ! k) ?s1 = Some (Fin (p ! k))" if "k < ?n" for k
    using that eq len by (metis nth_map keep_parents_length length_replicate)
  from entry [OF i] have s1: "?s1 \<noteq> 0" by (auto dest: np_divide_finite)
  have p_def: "p ! k = ?row1 ! k / ?s1" if "k < ?n" for k
    using entry [OF that] by (auto dest: np_divide_finite)
  have row1_cases: "?row1 ! k = 0 \<or> (k \<noteq> i \<and> t_init ! k \<le> t_init ! i \<and> ?row1 ! k = raw ! k)"
    if "k < ?n" for k
    using keep_parents_entry [of "rev (argsort raw)" i t_init raw n_par 0 ?zeros k] that by auto
  have row1_nonneg: "0 \<le> ?row1 ! k" if "k < ?n" for k
    using row1_cases [OF that] nonneg nth_mem [OF that] by auto
  have "0 \<le> ?s1"
    by (rule sum_list_nonneg) (use row1_nonneg in \<open>auto simp: in_set_conv_nth\<close>)
  with s1 have s1_pos: "0 < ?s1" by simp
  have p_nonneg: "0 \<le> p ! k" if "k < ?n" for k
    using p_def [OF that] row1_nonneg [OF that] s1_pos by simp
  have p_pos_iff: "0 < p ! k \<longleftrightarrow> ?row1 ! k \<noteq> 0" if "k < ?n" for k
    using p_def [OF that] row1_nonneg [OF that] s1_pos
    by (auto simp: zero_less_divide_iff less_le)
  have p_cand: "k \<noteq> i \<and> t_init ! k \<le> t_init ! i" if "k < ?n" "0 < p ! k" for k
    using row1_cases [OF that(1)] p_pos_iff [OF that(1)] that(2) by auto
  have "p = map (\<lambda>x. x / ?s1) ?row1"
    by (rule nth_equalityI) (use len p_def in auto)
  then have "sum_list p = sum_list ?row1 / ?s1"
    by (simp add: divide_inverse sum_list_mult_const)
  with s1 have sum_p: "sum_list p = 1" by simp
  \<comment> \<open>the second pass\<close>
  let ?ks = "rev (argsort p)"
  from arg have ks: "distinct ?ks" "set ?ks = {0..<?n}" "sorted (map (\<lambda>j. p ! j) (argsort p))"
    using len by (simp_all add: is_argsort_def)
  define pos where "pos = takeWhile (\<lambda>k. 0 < p ! k) ?ks"
  define rest where "rest = dropWhile (\<lambda>k. 0 < p ! k) ?ks"
  have split: "?ks = pos @ rest" by (simp add: pos_def rest_def)
  have "sorted (rev (map (\<lambda>j. p ! j) ?ks))"
    using ks(3) by (simp add: rev_map)
  from filter_equals_takeWhile_sorted_rev [OF this, of 0]
  have pos_filter: "pos = filter (\<lambda>k. 0 < p ! k) ?ks" by (simp add: pos_def)
  have "filter (\<lambda>k. 0 < p ! k) ?ks = pos @ filter (\<lambda>k. 0 < p ! k) rest"
    by (subst split) (simp add: pos_filter)
  with pos_filter have rest_zero: "\<forall>k \<in> set rest. \<not> 0 < p ! k"
    by (simp add: filter_empty_conv)
  have pos_set: "set pos = {k. k < ?n \<and> 0 < p ! k}"
    using ks(2) by (auto simp: pos_filter)
  have off_pos: "p ! k = 0" if "k < ?n" "k \<notin> set pos" for k
    using that pos_set p_nonneg [OF that(1)] by (auto simp: less_le)
  have "length pos = card ({k. 0 < p ! k} \<inter> {0..<?n})"
    unfolding pos_filter using distinct_length_filter [OF ks(1)] ks(2) by simp
  also have "\<dots> = length (filter (\<lambda>k. 0 < p ! k) [0..<?n])"
    using distinct_length_filter [of "[0..<?n]" "\<lambda>k. 0 < p ! k"] by simp
  also have "\<dots> = length (filter (\<lambda>k. ?row1 ! k \<noteq> 0) [0..<?n])"
    by (rule arg_cong [where f = length], rule filter_cong) (use p_pos_iff in auto)
  also have "\<dots> = length (filter (\<lambda>x. x \<noteq> 0) (map (\<lambda>k. ?row1 ! k) [0..<?n]))"
    by (simp add: filter_map comp_def)
  also have "map (\<lambda>k. ?row1 ! k) [0..<?n] = ?row1"
    by (rule nth_equalityI) simp_all
  finally have q: "length pos = length (filter (\<lambda>x. x \<noteq> 0) ?row1)" .
  have q_le: "int (length pos) \<le> n_par" if "0 < n_par"
  proof -
    from keep_parents_count [of 0 n_par "rev (argsort raw)" i t_init raw ?zeros] that
    have "length (filter (\<lambda>x. x \<noteq> 0) ?row1) \<le> nat n_par" by simp
    with q that show ?thesis by simp
  qed
  have no_break: "\<forall>j < length pos. int (0 + j + 1) = n_par \<longrightarrow> j + 1 = length pos"
  proof (intro allI impI)
    fix j assume j: "j < length pos" and hit: "int (0 + j + 1) = n_par"
    then have "0 < n_par" by simp
    from q_le [OF this] hit j show "j + 1 = length pos" by simp
  qed
  let ?row2 = "keep_parents ?ks i t_init p n_par 0 (replicate (length p) 0)"
  have cand: "\<forall>k \<in> set pos. k \<noteq> i \<and> t_init ! k \<le> t_init ! i \<and> k < length (replicate (length p) (0::real))"
    using pos_set p_cand len by auto
  from keep_parents_prefix [OF cand no_break, of rest p]
  have on_pos: "\<forall>k \<in> set pos. ?row2 ! k = p ! k" by (simp add: split)
  have row2: "?row2 = p"
  proof (rule nth_equalityI)
    show "length ?row2 = length p" by simp
  next
    fix k assume "k < length ?row2"
    then have k: "k < ?n" using len by simp
    show "?row2 ! k = p ! k"
    proof (cases "k \<in> set pos")
      case True
      with on_pos show ?thesis by simp
    next
      case False
      from keep_parents_entry [of ?ks i t_init p n_par 0 "replicate (length p) 0" k] k len
      have "?row2 ! k = 0 \<or> ?row2 ! k = p ! k" by auto
      with off_pos [OF k False] show ?thesis by auto
    qed
  qed
  have fl2: "add_floor t_init i p = p"
    using no_floor len by (auto simp: add_floor_def intro!: nth_equalityI)
  have i': "i < length p" using i len by simp
  show ?thesis
    by (simp add: pruned_row_no_assertion [OF i'] Let_def row2 fl2 sum_p np_divide_def)
qed


theorem pruning_idempotent_without_floor_witness:
  "pruned_row stable_argsort 2 [0, 0] [1 / 2, 1 / 2] 0 = Inr [Some (Fin 0), Some (Fin 1)] \<and>
   pruned_row stable_argsort 2 [0, 0] [0, 1] 0 = Inr [Some (Fin 0), Some (Fin 1)]"
proof -
  have first: "pruned_row stable_argsort 2 [0, 0] [1 / 2, 1 / 2] 0 =
      Inr (map (\<lambda>x. Some (Fin x)) [0, 1])"
    by code_simp
  have i: "0 < length [1 / 2, 1 / 2 :: real]" by simp
  have nonneg: "\<forall>x \<in> set [1 / 2, 1 / 2 :: real]. 0 \<le> x" by simp
  have no_floor: "\<forall>j < length [1 / 2, 1 / 2 :: real]. \<not> [0, 0 :: real] ! j < [0, 0] ! 0"
    by (simp add: nth_Cons' less_Suc_eq)
  from pruning_idempotent_without_floor [OF stable_argsort_ok i nonneg no_floor first] first
  show ?thesis by simp
qed

text \<open>
  C7 as stated fails on a row that gets the floor weight: the floor is added again by the
  second run. Types 0 and 1 start together, type 2 later; the pruned matrix is a matrix of
  numbers, and pruning it again changes row 2.
\<close>

theorem pruning_not_idempotent:
  "transition_P stable_argsort 2 [0, 0, 1] [[0, 1, 0], [1, 0, 0], [3 / 4, 1 / 4, 0]] =
     Inr [[Some (Fin 0), Some (Fin 1), Some (Fin 0)],
          [Some (Fin 1), Some (Fin 0), Some (Fin 0)],
          [Some (Fin (751 / 1002)), Some (Fin (251 / 1002)), Some (Fin 0)]] \<and>
   transition_P stable_argsort 2 [0, 0, 1]
       [[0, 1, 0], [1, 0, 0], [751 / 1002, 251 / 1002, 0]] =
     Inr [[Some (Fin 0), Some (Fin 1), Some (Fin 0)],
          [Some (Fin 1), Some (Fin 0), Some (Fin 0)],
          [Some (Fin (376001 / 502002)), Some (Fin (126001 / 502002)), Some (Fin 0)]] \<and>
   (751 / 1002 :: real) \<noteq> 376001 / 502002"
  by code_simp

end
